theory Spec2Isabelle
  imports Main "HOL-Library.Char_ord" "HOL-Library.List_Lexorder"
begin

section \<open>Outcomes, errors and lazy sequences\<close>

text \<open>
  A Go function either returns or panics. The two run-time panics the feed code can raise
  are an index out of range (\<^verbatim>\<open>videos[len(videos)-1]\<close> on an empty slice) and a nil pointer
  dereference (a method of the embedded \<^verbatim>\<open>*bbolt.DB\<close> called through a nil \<^verbatim>\<open>*Cache\<close>, or
  \<^verbatim>\<open>Cursor()\<close> called on a nil \<^verbatim>\<open>*bbolt.Bucket\<close>).
\<close>

datatype panic = IndexOutOfRange | NilDereference

datatype 'a outcome = Returned 'a | Panicked panic

text \<open>
  The values of Go's \<^verbatim>\<open>error\<close> interface that occur: the private \<^verbatim>\<open>cancel\<close> sentinel of
  \<^verbatim>\<open>allPlaylistItems\<close>, a failed request of the remote listing, the errors of the library's
  time, MIME and URL functions, an error wrapped with a message by \<^verbatim>\<open>fmt.Errorf\<close>, a failed
  store transaction and a record that \<^verbatim>\<open>json.Unmarshal\<close> rejects.
\<close>

datatype error =
    Cancelled
  | RemoteFailure string
  | TimeFailure
  | MimeFailure
  | UrlFailure
  | Wrapped string error
  | StoreFailure string
  | UnmarshalFailure

text \<open>
  An \<^verbatim>\<open>iter.Seq2[K, V]\<close> is a function that is handed a \<^verbatim>\<open>yield\<close> callback and calls it
  once per element until the callback answers \<^verbatim>\<open>false\<close> or the elements run out. The callback
  closes over variables of the consumer; here it receives and returns them as a state
  \<open>'s\<close>. An element \<^verbatim>\<open>(k, nil)\<close> is \<open>Inr k\<close> and an element \<^verbatim>\<open>(nil, err)\<close> is \<open>Inl err\<close>.
\<close>

type_synonym ('a, 's) yield = "'a \<Rightarrow> 's \<Rightarrow> bool \<times> 's"

type_synonym ('a, 's) seq = "('a, 's) yield \<Rightarrow> 's \<Rightarrow> 's outcome"

text \<open>
  \<^verbatim>\<open>for _, e := range xs { ... }\<close> over a slice, with a body that may leave the loop: the
  result says whether the loop ran to its end (\<open>True\<close>) or was left by the body.
\<close>

fun range_list :: "'a list \<Rightarrow> ('a, 's) yield \<Rightarrow> 's \<Rightarrow> bool \<times> 's" where
  "range_list [] body s = (True, s)"
| "range_list (x # xs) body s =
     (case body x s of
        (True, s') \<Rightarrow> range_list xs body s'
      | (False, s') \<Rightarrow> (False, s'))"

text \<open>A sequence that produces the elements of a list, in order.\<close>

definition list_seq :: "'a list \<Rightarrow> ('a, 's) seq" where
  "list_seq xs yield s = Returned (snd (range_list xs yield s))"

subsection \<open>take\<close>

text \<open>
  \<^verbatim>\<open>
  func take[K any, V any](n int, seq iter.Seq2[K, V]) iter.Seq2[K, V] {
      var counter int
      return func(yield func(K, V) bool) {
          if n <= 0 { return }
          for k, v := range seq {
              if !yield(k, v) { break }
              counter++
              if counter >= n { break }
          }
      }
  }
  \<close>
  The variable \<^verbatim>\<open>counter\<close> belongs to the closure; it is the first component of the state
  that is threaded through the underlying sequence, and it starts at \<open>0\<close>. It never
  exceeds \<open>n\<close>, so the machine addition does not wrap.
\<close>

definition take_yield :: "int \<Rightarrow> ('a, 's) yield \<Rightarrow> ('a, int \<times> 's) yield" where
  "take_yield n yield k = (\<lambda>(counter, s).
     case yield k s of
       (False, s') \<Rightarrow> (False, (counter, s'))
     | (True, s') \<Rightarrow>
         (let counter' = counter + 1
          in if counter' \<ge> n then (False, (counter', s')) else (True, (counter', s'))))"

definition take_seq :: "int \<Rightarrow> ('a, int \<times> 's) seq \<Rightarrow> ('a, 's) yield \<Rightarrow> int \<times> 's \<Rightarrow> (int \<times> 's) outcome" where
  "take_seq n seq yield cs = (if n \<le> 0 then Returned cs else seq (take_yield n yield) cs)"




text \<open>A consumer that never stops and appends what it is given.\<close>

definition collect :: "('a, 'a list) yield" where
  "collect x acc = (True, acc @ [x])"

section \<open>Decimal conversions of strconv\<close>

text \<open>
  \<^verbatim>\<open>strconv.Itoa\<close> and \<^verbatim>\<open>strconv.Atoi\<close> of the Go library, for the 64-bit \<^verbatim>\<open>int\<close>.
  \<^verbatim>\<open>Atoi\<close> accepts an optional sign followed by one or more decimal digits and nothing
  else, and fails when the value does not fit 64 bits; \<open>None\<close> is its error.
\<close>

definition digit_char :: "nat \<Rightarrow> char" where
  "digit_char d = ''0123456789'' ! d"

definition digit_of :: "char \<Rightarrow> nat option" where
  "digit_of c = (if CHR ''0'' \<le> c \<and> c \<le> CHR ''9'' then Some (of_char c - 48) else None)"

fun digits_value :: "string \<Rightarrow> nat \<Rightarrow> nat option" where
  "digits_value [] acc = Some acc"
| "digits_value (c # cs) acc =
     (case digit_of c of None \<Rightarrow> None | Some d \<Rightarrow> digits_value cs (acc * 10 + d))"

definition Atoi :: "string \<Rightarrow> int option" where
  "Atoi s =
     (let (neg, ds) =
        (case s of
           [] \<Rightarrow> (False, [])
         | c # cs \<Rightarrow>
             if c = CHR ''-'' then (True, cs)
             else if c = CHR ''+'' then (False, cs)
             else (False, s))
      in if ds = [] then None
         else case digits_value ds 0 of
                None \<Rightarrow> None
              | Some v \<Rightarrow>
                  (let i = (if neg then - int v else int v)
                   in if - (2 ^ 63) \<le> i \<and> i \<le> 2 ^ 63 - 1 then Some i else None))"

fun digits_of :: "nat \<Rightarrow> string" where
  "digits_of n = (if n < 10 then [digit_char n] else digits_of (n div 10) @ [digit_char (n mod 10)])"

declare digits_of.simps [simp del]

definition Itoa :: "int \<Rightarrow> string" where
  "Itoa i = (if i < 0 then CHR ''-'' # digits_of (nat (- i)) else digits_of (nat i))"

definition MaxInt :: int where
  "MaxInt = 2 ^ 63 - 1"

section \<open>Options and the HTTP handler\<close>

text \<open>
  \<^verbatim>\<open>
  type options struct { limit int; format string; mimetype string; enclosureBase string }
  var defaultOptions options = options{
      limit: math.MaxInt, format: "best[ext=mp4]", mimetype: "video/mp4", enclosureBase: "" }
  \<close>
\<close>

record options =
  limit :: int
  format :: string
  mimetype :: string
  enclosureBase :: string

definition defaultOptions :: options where
  "defaultOptions =
     \<lparr>limit = MaxInt, format = ''best[ext=mp4]'', mimetype = ''video/mp4'', enclosureBase = ''''\<rparr>"

definition WithLimit :: "int \<Rightarrow> options \<Rightarrow> options" where
  "WithLimit l opts = opts\<lparr>limit := l\<rparr>"

definition WithFormat :: "string \<Rightarrow> options \<Rightarrow> options" where
  "WithFormat f opts = opts\<lparr>format := f\<rparr>"

definition WithMimeType :: "string \<Rightarrow> options \<Rightarrow> options" where
  "WithMimeType m opts = opts\<lparr>mimetype := m\<rparr>"

definition WithEnclosureBase :: "string \<Rightarrow> options \<Rightarrow> options" where
  "WithEnclosureBase b opts = opts\<lparr>enclosureBase := b\<rparr>"

text \<open>
  The first lines of \<^verbatim>\<open>Channel\<close>:
  \<^verbatim>\<open>options := defaultOptions; for _, opt := range o { options = opt(options) }\<close>.
\<close>

definition apply_options :: "(options \<Rightarrow> options) list \<Rightarrow> options" where
  "apply_options os = foldl (\<lambda>options opt. opt options) defaultOptions os"

text \<open>
  \<^verbatim>\<open>url.Values\<close> maps a parameter name to its values; \<^verbatim>\<open>Get\<close> gives the first value, or the
  empty string when there is none.
\<close>

type_synonym Values = "string \<rightharpoonup> string list"

definition Values_Get :: "Values \<Rightarrow> string \<Rightarrow> string" where
  "Values_Get v key = (case v key of None \<Rightarrow> [] | Some [] \<Rightarrow> [] | Some (x # _) \<Rightarrow> x)"

record Server =
  BaseUrl :: string
  Limit :: int
  MimeType :: string
  YtdlCommand :: string
  Format :: string

text \<open>
  The options that \<^verbatim>\<open>(*Server).channel\<close> passes to \<^verbatim>\<open>Svc.Channel\<close> for a request with the
  given query:
  \<^verbatim>\<open>
  limit, err := strconv.Atoi(query.Get("limit"))
  if err != nil || limit == 0 { limit = s.Limit }
  mimeType := query.Get("mimeType"); if len(mimeType) == 0 { mimeType = s.MimeType }
  format := query.Get("format");     if len(format) == 0 { format = s.Format }
  channel, err := s.Svc.Channel(r.Context(), channelId,
      WithLimit(limit), WithFormat(format), WithEnclosureBase(s.BaseUrl), WithMimeType(mimeType))
  \<close>
\<close>

definition channel_limit :: "Server \<Rightarrow> Values \<Rightarrow> int" where
  "channel_limit s query =
     (case Atoi (Values_Get query ''limit'') of
        None \<Rightarrow> Limit s
      | Some n \<Rightarrow> if n = 0 then Limit s else n)"

definition channel_options :: "Server \<Rightarrow> Values \<Rightarrow> (options \<Rightarrow> options) list" where
  "channel_options s query =
     (let lim = channel_limit s query;
          mimeType = (let m = Values_Get query ''mimeType'' in if length m = 0 then MimeType s else m);
          fmt = (let f = Values_Get query ''format'' in if length f = 0 then Format s else f)
      in [WithLimit lim, WithFormat fmt, WithEnclosureBase (BaseUrl s), WithMimeType mimeType])"

text \<open>
  The settings of the server that \<^verbatim>\<open>main\<close> starts in serve mode when the command line
  sets none of them: the default of each flag is read from the environment, and the
  limit goes into the server as it was read, with no test of its value.
  \<^verbatim>\<open>
  func env(key, def string) string {
      if val, ok := os.LookupEnv(key); ok { return val }
      return def }
  func intEnv(key string, def int) int {
      if val, ok := os.LookupEnv(key); ok {
          i, err := strconv.Atoi(val)
          if err != nil { log.Fatal(err) }
          return i }
      return def }
  flag.IntVar(&limit, "l", intEnv("YT2RSS_LIMIT", math.MaxInt), ...)
  flag.StringVar(&ytdlCommand, "c", env("YT2RSS_YTDL_COMMAND", "yt-dlp"), ...)
  flag.StringVar(&format, "f", env("YT2RSS_FORMAT", "best[ext=mp4]"), ...)
  flag.StringVar(&mimeType, "t", env("YT2RSS_MIME_TYPE", "video/mp4"), ...)
  flag.StringVar(&baseUrl, "b", env("YT2RSS_BASE_URL", "http://localhost:9494"), ...)
  server := Server{BaseUrl: baseUrl, Limit: limit, MimeType: mimeType,
      YtdlCommand: ytdlCommand, Format: format, Svc: svc}
  \<close>
  \<open>None\<close> is the exit of \<^verbatim>\<open>log.Fatal\<close>.
\<close>

definition env :: "(string \<rightharpoonup> string) \<Rightarrow> string \<Rightarrow> string \<Rightarrow> string" where
  "env environ key def = (case environ key of Some val \<Rightarrow> val | None \<Rightarrow> def)"

definition intEnv :: "(string \<rightharpoonup> string) \<Rightarrow> string \<Rightarrow> int \<Rightarrow> int option" where
  "intEnv environ key def = (case environ key of Some val \<Rightarrow> Atoi val | None \<Rightarrow> Some def)"

definition main_server :: "(string \<rightharpoonup> string) \<Rightarrow> Server option" where
  "main_server environ =
     (case intEnv environ ''YT2RSS_LIMIT'' MaxInt of
        None \<Rightarrow> None
      | Some lim \<Rightarrow>
          Some \<lparr>BaseUrl = env environ ''YT2RSS_BASE_URL'' ''http://localhost:9494'',
                Limit = lim,
                MimeType = env environ ''YT2RSS_MIME_TYPE'' ''video/mp4'',
                YtdlCommand = env environ ''YT2RSS_YTDL_COMMAND'' ''yt-dlp'',
                Format = env environ ''YT2RSS_FORMAT'' ''best[ext=mp4]''\<rparr>)"

text \<open>A server started with the limit 15 and a request \<^verbatim>\<open>?limit=-5\<close>.\<close>

definition server15 :: Server where
  "server15 = \<lparr>BaseUrl = ''http://localhost:9494'', Limit = 15, MimeType = ''video/mp4'',
                YtdlCommand = ''yt-dlp'', Format = ''best[ext=mp4]''\<rparr>"

definition query_minus5 :: Values where
  "query_minus5 = [''limit'' \<mapsto> [''-5'']]"

text \<open>
  A server started with \<^verbatim>\<open>YT2RSS_LIMIT=0\<close>, and a request whose limit is an integer that
  does not fit 64 bits.
\<close>

definition server0 :: Server where
  "server0 = \<lparr>BaseUrl = ''http://localhost:9494'', Limit = 0, MimeType = ''video/mp4'',
               YtdlCommand = ''yt-dlp'', Format = ''best[ext=mp4]''\<rparr>"

definition query_huge :: Values where
  "query_huge = [''limit'' \<mapsto> [''99999999999999999999'']]"

section \<open>Times, items and cache keys\<close>

text \<open>
  A \<^verbatim>\<open>time.Time\<close> as \<^verbatim>\<open>time.Parse(time.RFC3339, ...)\<close> returns it: the civil date and clock
  reading in the zone of the time, the fraction of the second, and the offset of that zone
  in seconds east of UTC.
\<close>

record Time =
  Year :: int
  Month :: nat
  Day :: nat
  Hour :: nat
  Minute :: nat
  Second :: nat
  Nanosecond :: nat
  Offset :: int

text \<open>
  \<^verbatim>\<open>t.Format(time.RFC3339)\<close>, layout \<^verbatim>\<open>"2006-01-02T15:04:05Z07:00"\<close>. The library's
  \<^verbatim>\<open>appendInt\<close> writes a minus sign for a negative number and pads the digits with zeros to
  the width; the zone is \<^verbatim>\<open>Z\<close> for the offset \<open>0\<close> and otherwise a sign, hours and minutes
  (the offset divided by 60 with Go's truncating division). The fraction of the second is
  not written.
\<close>

definition pad :: "nat \<Rightarrow> nat \<Rightarrow> string" where
  "pad width u = replicate (width - length (digits_of u)) CHR ''0'' @ digits_of u"

definition appendInt :: "int \<Rightarrow> nat \<Rightarrow> string" where
  "appendInt x width = (if x < 0 then CHR ''-'' # pad width (nat (- x)) else pad width (nat x))"

definition format_zone :: "int \<Rightarrow> string" where
  "format_zone off =
     (if off = 0 then ''Z''
      else let zone = (if off < 0 then - ((- off) div 60) else off div 60)
           in if zone < 0
              then CHR ''-'' # appendInt ((- zone) div 60) 2 @ '':'' @ appendInt ((- zone) mod 60) 2
              else CHR ''+'' # appendInt (zone div 60) 2 @ '':'' @ appendInt (zone mod 60) 2)"

definition Format_RFC3339 :: "Time \<Rightarrow> string" where
  "Format_RFC3339 t =
     appendInt (Year t) 4 @ ''-'' @ appendInt (int (Month t)) 2 @ ''-'' @ appendInt (int (Day t)) 2
     @ ''T'' @ appendInt (int (Hour t)) 2 @ '':'' @ appendInt (int (Minute t)) 2
     @ '':'' @ appendInt (int (Second t)) 2 @ format_zone (Offset t)"

text \<open>
  The instant of a time, for the chronological order: days of the proleptic Gregorian
  calendar since the first of January of the year 1, seconds since then in UTC, and the
  order of two times by second and fraction.
\<close>

definition leap_year :: "int \<Rightarrow> bool" where
  "leap_year y = (y mod 4 = 0 \<and> (y mod 100 \<noteq> 0 \<or> y mod 400 = 0))"

definition days_before_year :: "int \<Rightarrow> int" where
  "days_before_year y = 365 * (y - 1) + (y - 1) div 4 - (y - 1) div 100 + (y - 1) div 400"

definition days_in_month :: "int \<Rightarrow> nat \<Rightarrow> nat" where
  "days_in_month y m =
     (if m = 2 then (if leap_year y then 29 else 28)
      else if m = 4 \<or> m = 6 \<or> m = 9 \<or> m = 11 then 30 else 31)"

definition days_before_month :: "int \<Rightarrow> nat \<Rightarrow> nat" where
  "days_before_month y m = sum_list (map (days_in_month y) [1 ..< m])"

definition days_since_epoch :: "Time \<Rightarrow> int" where
  "days_since_epoch t =
     days_before_year (Year t) + int (days_before_month (Year t) (Month t)) + int (Day t) - 1"

definition instant_seconds :: "Time \<Rightarrow> int" where
  "instant_seconds t =
     days_since_epoch t * 86400 + int (Hour t) * 3600 + int (Minute t) * 60 + int (Second t)
     - Offset t"

definition earlier :: "Time \<Rightarrow> Time \<Rightarrow> bool" where
  "earlier a b =
     (instant_seconds a < instant_seconds b
      \<or> instant_seconds a = instant_seconds b \<and> Nanosecond a < Nanosecond b)"

text \<open>The civil fields that \<^verbatim>\<open>time.Parse\<close> accepts: a day that exists, a clock reading.\<close>

definition valid_time :: "Time \<Rightarrow> bool" where
  "valid_time t =
     (1 \<le> Month t \<and> Month t \<le> 12 \<and> 1 \<le> Day t \<and> Day t \<le> days_in_month (Year t) (Month t)
      \<and> Hour t < 24 \<and> Minute t < 60 \<and> Second t < 60 \<and> Nanosecond t < 1000000000)"

text \<open>
  The order and the equality of two times by their civil fields, and the part of the
  formatted time that holds these fields.
\<close>

definition civil_less :: "Time \<Rightarrow> Time \<Rightarrow> bool" where
  "civil_less a b =
     (Year a < Year b \<or> Year a = Year b \<and>
       (Month a < Month b \<or> Month a = Month b \<and>
         (Day a < Day b \<or> Day a = Day b \<and>
           (Hour a < Hour b \<or> Hour a = Hour b \<and>
             (Minute a < Minute b \<or> Minute a = Minute b \<and> Second a < Second b)))))"

definition civil_eq :: "Time \<Rightarrow> Time \<Rightarrow> bool" where
  "civil_eq a b =
     (Year a = Year b \<and> Month a = Month b \<and> Day a = Day b \<and> Hour a = Hour b
      \<and> Minute a = Minute b \<and> Second a = Second b)"

definition civil_string :: "Time \<Rightarrow> string" where
  "civil_string t =
     appendInt (Year t) 4 @ ''-'' @ appendInt (int (Month t)) 2 @ ''-'' @ appendInt (int (Day t)) 2
     @ ''T'' @ appendInt (int (Hour t)) 2 @ '':'' @ appendInt (int (Minute t)) 2
     @ '':'' @ appendInt (int (Second t)) 2"

text \<open>
  \<^verbatim>\<open>youtube.PlaylistItem\<close>, with the fields that are read: \<^verbatim>\<open>Id\<close>, \<^verbatim>\<open>Snippet.Title\<close>,
  \<^verbatim>\<open>Snippet.Description\<close>, \<^verbatim>\<open>Snippet.PublishedAt\<close> and \<^verbatim>\<open>Snippet.ResourceId.VideoId\<close>.
\<close>

record PlaylistItem =
  Item_Id :: string
  Snippet_Title :: string
  Snippet_Description :: string
  Snippet_PublishedAt :: string
  ResourceId_VideoId :: string

text \<open>\<^verbatim>\<open>feeds.Enclosure\<close> and \<^verbatim>\<open>feeds.Item\<close>, with the fields that are set.\<close>

record Enclosure =
  Url :: string
  Length :: string
  Type :: string

record Item =
  Title :: string
  Link :: string
  Id :: string
  Created :: Time
  Description :: string
  Enclosure :: "Enclosure option"

text \<open>
  The key of an item in its bucket, as \<^verbatim>\<open>HasItem\<close> and \<^verbatim>\<open>Put\<close> build it:
  \<^verbatim>\<open>fmt.Sprintf("%s-%s", item.Created.Format(time.RFC3339), item.Id)\<close>.
\<close>

definition item_key :: "Item \<Rightarrow> string" where
  "item_key item = Format_RFC3339 (Created item) @ ''-'' @ Id item"

text \<open>
  The functions of the Go library and of the YouTube client that the feed code calls and
  that are not part of it: parsing an RFC 3339 time, the table of file extensions of a
  MIME type, parsing a URL, and writing a URL with an encoded query. \<open>None\<close> is an error.
\<close>

record lib =
  time_Parse :: "string \<Rightarrow> Time option"
  mime_ExtensionsByType :: "string \<Rightarrow> string list option"
  url_Parse :: "string \<Rightarrow> string option"
  url_String :: "string \<Rightarrow> (string \<times> string) list \<Rightarrow> string"

section \<open>The cache store\<close>

text \<open>
  A bucket of the bbolt store holds byte strings under byte-string keys and is walked in
  the bytewise order of its keys; it is the list of its entries in strictly ascending key
  order. A value is either the JSON encoding of an item, written by \<^verbatim>\<open>Put\<close> with
  \<^verbatim>\<open>json.Marshal\<close> and read back by \<^verbatim>\<open>json.Unmarshal\<close> (taken to be an exact round trip, and
  \<^verbatim>\<open>Marshal\<close> not to fail on an item), or other bytes; the only other bytes that are written
  are the decimal numbers under the key \<^verbatim>\<open>last-limit\<close>, and they do not decode as an item.
  Names and keys are taken to be ones that bbolt accepts (not empty, not oversized).
\<close>

datatype bval = Json Item | Bytes string

type_synonym bucket = "(string \<times> bval) list"

fun bucket_Put :: "bucket \<Rightarrow> string \<Rightarrow> bval \<Rightarrow> bucket" where
  "bucket_Put [] k v = [(k, v)]"
| "bucket_Put ((k', v') # es) k v =
     (if k < k' then (k, v) # (k', v') # es
      else if k = k' then (k, v) # es
      else (k', v') # bucket_Put es k v)"

definition bucket_Get :: "bucket \<Rightarrow> string \<Rightarrow> bval option" where
  "bucket_Get b k = map_of b k"

definition json_Unmarshal :: "bval \<Rightarrow> error + Item" where
  "json_Unmarshal v = (case v of Json item \<Rightarrow> Inr item | Bytes _ \<Rightarrow> Inl UnmarshalFailure)"

text \<open>
  \<^verbatim>\<open>strconv.Atoi(string(b.Get(key)))\<close>: a missing key gives the empty string; the encoding of
  an item starts with a brace and is not a number.
\<close>

definition Atoi_Get :: "bucket \<Rightarrow> string \<Rightarrow> int option" where
  "Atoi_Get b k =
     (case bucket_Get b k of
        None \<Rightarrow> Atoi []
      | Some (Bytes s) \<Rightarrow> Atoi s
      | Some (Json _) \<Rightarrow> None)"

text \<open>
  The database: its buckets by name, and whether its transactions fail to begin (as they
  do on a database that is not open), with the error's text. \<^verbatim>\<open>Update\<close> runs a function
  in a writable transaction and commits when it returns no error; \<^verbatim>\<open>View\<close> runs a function
  in a read-only transaction. A \<^verbatim>\<open>*Cache\<close> is \<^verbatim>\<open>nil\<close> or points to a database.
\<close>

record db =
  buckets :: "string \<rightharpoonup> bucket"
  fault :: "string option"

type_synonym tx = "string \<rightharpoonup> bucket"

type_synonym Cache = "db option"

definition Update :: "db \<Rightarrow> (tx \<Rightarrow> error option \<times> tx) \<Rightarrow> error option \<times> db" where
  "Update d fn =
     (case fault d of
        Some m \<Rightarrow> (Some (StoreFailure m), d)
      | None \<Rightarrow>
          (case fn (buckets d) of
             (Some e, _) \<Rightarrow> (Some e, d)
           | (None, t) \<Rightarrow> (None, d\<lparr>buckets := t\<rparr>)))"

definition View :: "db \<Rightarrow> (tx \<Rightarrow> 's \<Rightarrow> (error option \<times> 's) outcome) \<Rightarrow> 's \<Rightarrow> (error option \<times> 's) outcome" where
  "View d fn s =
     (case fault d of
        Some m \<Rightarrow> Returned (Some (StoreFailure m), s)
      | None \<Rightarrow> fn (buckets d) s)"

definition CreateBucketIfNotExists :: "tx \<Rightarrow> string \<Rightarrow> bucket \<times> tx" where
  "CreateBucketIfNotExists t name =
     (case t name of
        None \<Rightarrow> ([], t(name \<mapsto> []))
      | Some b \<Rightarrow> (b, t))"

text \<open>
  \<^verbatim>\<open>
  func (c *Cache) InvalidateCacheIfDirty(playlistId string, limit int) {
      if c == nil { return }
      err := c.Update(func(tx *bbolt.Tx) error {
          b := tx.Bucket([]byte(playlistId))
          if b == nil { return nil }
          lastLimit, err := strconv.Atoi(string(b.Get([]byte("last-limit"))))
          if lastLimit < limit || err != nil {
              if err := tx.DeleteBucket([]byte(playlistId)); err != nil { return err }
          }
          newBucket, err := tx.CreateBucketIfNotExists([]byte(playlistId))
          if err != nil { return err }
          if err = newBucket.Put([]byte("last-limit"), []byte(strconv.Itoa(limit))); err != nil {
              return err
          }
          return nil
      })
      if err != nil { log.Printf(...) }
  }
  \<close>
  An error of the transaction is logged and has no other effect.
\<close>

definition InvalidateCacheIfDirty :: "Cache \<Rightarrow> string \<Rightarrow> int \<Rightarrow> Cache" where
  "InvalidateCacheIfDirty c playlistId lim =
     (case c of
        None \<Rightarrow> None
      | Some d \<Rightarrow>
          Some (snd (Update d (\<lambda>t.
            case t playlistId of
              None \<Rightarrow> (None, t)
            | Some b \<Rightarrow>
                (let dirty = (case Atoi_Get b ''last-limit'' of
                                None \<Rightarrow> True
                              | Some lastLimit \<Rightarrow> lastLimit < lim);
                     t1 = (if dirty then t(playlistId := None) else t);
                     (newBucket, t2) = CreateBucketIfNotExists t1 playlistId
                 in (None, t2(playlistId \<mapsto>
                       bucket_Put newBucket ''last-limit'' (Bytes (Itoa lim)))))))))"

text \<open>
  \<^verbatim>\<open>
  func (c *Cache) UpdateMaxLimit(playlistId string, limit int) {
      if c == nil { return }
      err := c.Update(func(tx *bbolt.Tx) error {
          b := tx.Bucket([]byte(playlistId))
          if b == nil { return nil }
          lastLimit, err := strconv.Atoi(string(b.Get([]byte("last-limit"))))
          if err != nil { lastLimit = 0 }
          if err = b.Put([]byte("last-limit"), []byte(strconv.Itoa(max(lastLimit, limit)))); ...
          return nil
      })
      ...
  }
  \<close>
\<close>

definition UpdateMaxLimit :: "Cache \<Rightarrow> string \<Rightarrow> int \<Rightarrow> Cache" where
  "UpdateMaxLimit c playlistId lim =
     (case c of
        None \<Rightarrow> None
      | Some d \<Rightarrow>
          Some (snd (Update d (\<lambda>t.
            case t playlistId of
              None \<Rightarrow> (None, t)
            | Some b \<Rightarrow>
                (let lastLimit = (case Atoi_Get b ''last-limit'' of None \<Rightarrow> 0 | Some l \<Rightarrow> l)
                 in (None, t(playlistId \<mapsto>
                       bucket_Put b ''last-limit'' (Bytes (Itoa (max lastLimit lim))))))))))"

text \<open>
  \<^verbatim>\<open>
  func (c *Cache) HasItem(playlistId string, item *feeds.Item) bool {
      if c == nil { return false }
      var result bool
      err := c.View(func(tx *bbolt.Tx) error {
          b := tx.Bucket([]byte(playlistId))
          if b == nil { result = false; return nil }
          result = b.Get([]byte(fmt.Sprintf("%s-%s", item.Created.Format(time.RFC3339), item.Id))) != nil
          return nil
      })
      if err != nil { result = false; log.Printf(...) }
      return result
  }
  \<close>
\<close>

definition HasItem :: "Cache \<Rightarrow> string \<Rightarrow> Item \<Rightarrow> bool" where
  "HasItem c playlistId item =
     (case c of
        None \<Rightarrow> False
      | Some d \<Rightarrow>
          (case View d (\<lambda>t result.
                  case t playlistId of
                    None \<Rightarrow> Returned (None, False)
                  | Some b \<Rightarrow> Returned (None, bucket_Get b (item_key item) \<noteq> None)) False of
             Returned (None, result) \<Rightarrow> result
           | Returned (Some err, result) \<Rightarrow> False
           | Panicked p \<Rightarrow> False))"

text \<open>
  \<^verbatim>\<open>
  func (c *Cache) Put(playlistId string, items ...*feeds.Item) {
      if c == nil { return }
      err := c.Update(func(tx *bbolt.Tx) error {
          b, err := tx.CreateBucketIfNotExists([]byte(playlistId))
          if err != nil { return err }
          for _, item := range items {
              data, err := json.Marshal(item)
              if err != nil { return err }
              if err = b.Put([]byte(fmt.Sprintf("%s-%s", ...)), data); err != nil { return err }
          }
          return nil
      })
      ...
  }
  \<close>
\<close>

definition Put :: "Cache \<Rightarrow> string \<Rightarrow> Item list \<Rightarrow> Cache" where
  "Put c playlistId items =
     (case c of
        None \<Rightarrow> None
      | Some d \<Rightarrow>
          Some (snd (Update d (\<lambda>t.
            (let (b, t1) = CreateBucketIfNotExists t playlistId
             in (None, t1(playlistId \<mapsto>
                   foldl (\<lambda>b item. bucket_Put b (item_key item) (Json item)) b items)))))))"

text \<open>
  The cursor of a bucket is a position in the list of its entries. \<^verbatim>\<open>Seek\<close> moves it to the
  first entry whose key is not below the one sought, or behind the last entry when there is
  none; \<^verbatim>\<open>Prev\<close> moves it one entry towards the smaller keys and returns that entry, or
  nothing at the first entry.
\<close>

definition Seek :: "bucket \<Rightarrow> string \<Rightarrow> nat" where
  "Seek b k = length (takeWhile (\<lambda>e. fst e < k) b)"

definition Prev :: "bucket \<Rightarrow> nat \<Rightarrow> (string \<times> bval) option \<times> nat" where
  "Prev b pos = (if pos = 0 \<or> length b < pos then (None, 0) else (Some (b ! (pos - 1)), pos - 1))"

text \<open>
  \<^verbatim>\<open>
  func (c *Cache) Iter(playlistId string, after string) iter.Seq2[*feeds.Item, error] {
      return func(yield func(*feeds.Item, error) bool) {
          err := c.View(func(tx *bbolt.Tx) error {
              b := tx.Bucket([]byte(playlistId)).Cursor()
              if b == nil { return nil }
              _, _ = b.Seek([]byte(after))
              for k, v := b.Prev(); k != nil; k, v = b.Prev() {
                  var item feeds.Item
                  if err := json.Unmarshal(v, &item); err != nil { return err }
                  if !yield(&item, nil) { return nil }
              }
              return nil
          })
          if err != nil { yield(nil, err) }
      }
  }
  \<close>
  There is no test of \<^verbatim>\<open>c\<close>: on a nil \<^verbatim>\<open>*Cache\<close> the call \<^verbatim>\<open>c.View\<close> reads the embedded
  field through the nil pointer and panics. \<^verbatim>\<open>tx.Bucket\<close> returns nil for a bucket that does
  not exist, and \<^verbatim>\<open>Cursor\<close> on the nil bucket reads its transaction and panics; a cursor is
  never nil, so the test that follows is never true. The loop is \<open>walk\<close>, from the
  position that \<^verbatim>\<open>Seek\<close> left.
\<close>

function walk :: "bucket \<Rightarrow> nat \<Rightarrow> (error + Item, 's) yield \<Rightarrow> 's \<Rightarrow> error option \<times> 's" where
  "walk b pos yield s =
     (case Prev b pos of
        (None, _) \<Rightarrow> (None, s)
      | (Some (k, v), pos') \<Rightarrow>
          (case json_Unmarshal v of
             Inl err \<Rightarrow> (Some err, s)
           | Inr item \<Rightarrow>
               (case yield (Inr item) s of
                  (False, s') \<Rightarrow> (None, s')
                | (True, s') \<Rightarrow> walk b pos' yield s')))"
  by pat_completeness auto
termination
  by (relation "measure (\<lambda>(b, pos, yield, s). pos)") (auto simp: Prev_def split: if_splits)

declare walk.simps [simp del]

definition Iter :: "Cache \<Rightarrow> string \<Rightarrow> string \<Rightarrow> (error + Item, 's) seq" where
  "Iter c playlistId after yield s =
     (case c of
        None \<Rightarrow> Panicked NilDereference
      | Some d \<Rightarrow>
          (case View d (\<lambda>t s.
                  case t playlistId of
                    None \<Rightarrow> Panicked NilDereference
                  | Some b \<Rightarrow> Returned (walk b (Seek b after) yield s)) s of
             Panicked p \<Rightarrow> Panicked p
           | Returned (Some err, s') \<Rightarrow> Returned (snd (yield (Inl err) s'))
           | Returned (None, s') \<Rightarrow> Returned s'))"

section \<open>The remote listing\<close>

text \<open>
  What the YouTube client returns for a playlist: the pages that are fetched one after the
  other, each with its items, and whether the request that follows the last of them fails,
  with the error's text. \<^verbatim>\<open>call.Pages(ctx, f)\<close> calls \<open>f\<close> on each page in turn, stops with
  the error of \<open>f\<close> when it returns one, and returns the error of a failed request.
\<close>

record remote =
  pages :: "PlaylistItem list list"
  failure :: "string option"

fun Pages :: "PlaylistItem list list \<Rightarrow> string option \<Rightarrow>
    (PlaylistItem list \<Rightarrow> 's \<Rightarrow> error option \<times> 's) \<Rightarrow> 's \<Rightarrow> error option \<times> 's" where
  "Pages [] fail f s = (map_option RemoteFailure fail, s)"
| "Pages (pl # rest) fail f s =
     (case f pl s of
        (Some err, s') \<Rightarrow> (Some err, s')
      | (None, s') \<Rightarrow> Pages rest fail f s')"

text \<open>
  \<^verbatim>\<open>
  func (y *YoutubeAPIService) allPlaylistItems(ctx, call) iter.Seq2[*youtube.PlaylistItem, error] {
      return func(yield func(*youtube.PlaylistItem, error) bool) {
          cancel := errors.New("cancelled")
          err := call.Pages(ctx, func(pl *youtube.PlaylistItemListResponse) error {
              for _, e := range pl.Items {
                  if !yield(e, nil) { return cancel }
              }
              return nil
          })
          if err != nil && !errors.Is(err, cancel) { yield(nil, err) }
      }
  }
  \<close>
\<close>

definition allPlaylistItems :: "remote \<Rightarrow> (error + PlaylistItem, 's) seq" where
  "allPlaylistItems r yield s =
     (case Pages (pages r) (failure r)
             (\<lambda>pl s. case range_list pl (\<lambda>e. yield (Inr e)) s of
                        (True, s') \<Rightarrow> (None, s')
                      | (False, s') \<Rightarrow> (Some Cancelled, s')) s of
        (None, s') \<Rightarrow> Returned s'
      | (Some err, s') \<Rightarrow>
          if err \<noteq> Cancelled then Returned (snd (yield (Inl err) s')) else Returned s')"

section \<open>Feed items\<close>

text \<open>
  \<^verbatim>\<open>
  func (y *YoutubeAPIService) formatEnclosure(v *youtube.PlaylistItem, o options) (*feeds.Enclosure, error) {
      if len(o.enclosureBase) == 0 { return nil, nil }
      vId := v.Snippet.ResourceId.VideoId
      extension, err := mime.ExtensionsByType(o.mimetype)
      if err != nil { return nil, err }
      var enc *url.URL
      query := make(url.Values)
      if len(extension) == 0 {
          enc, err = url.Parse(fmt.Sprintf("%s/watch", o.enclosureBase))
          query.Add("v", vId)
      } else {
          enc, err = url.Parse(fmt.Sprintf("%s/watch/%s%s", o.enclosureBase, vId, extension[len(extension)-1]))
      }
      if err != nil { return nil, fmt.Errorf("could not parse enclosure base url: %w", err) }
      if o.format != defaultOptions.format { query.Add("format", o.format) }
      enc.RawQuery = query.Encode()
      return &feeds.Enclosure{Url: enc.String(), Length: "-1", Type: o.mimetype}, nil
  }
  \<close>
\<close>

definition formatEnclosure :: "lib \<Rightarrow> PlaylistItem \<Rightarrow> options \<Rightarrow> error + Enclosure option" where
  "formatEnclosure L v opts =
     (if length (enclosureBase opts) = 0 then Inr None
      else
        (let vId = ResourceId_VideoId v
         in case mime_ExtensionsByType L (mimetype opts) of
              None \<Rightarrow> Inl MimeFailure
            | Some extension \<Rightarrow>
                (let (raw, query) =
                       (if length extension = 0
                        then (enclosureBase opts @ ''/watch'', [(''v'', vId)])
                        else (enclosureBase opts @ ''/watch/'' @ vId @ last extension, []))
                 in case url_Parse L raw of
                      None \<Rightarrow> Inl (Wrapped ''could not parse enclosure base url'' UrlFailure)
                    | Some enc \<Rightarrow>
                        (let query' = (if format opts \<noteq> format defaultOptions
                                       then query @ [(''format'', format opts)] else query)
                         in Inr (Some \<lparr>Url = url_String L enc query', Length = ''-1'',
                                       Type = mimetype opts\<rparr>)))))"

text \<open>
  \<^verbatim>\<open>
  func (y *YoutubeAPIService) mapToFeedItem(item *youtube.PlaylistItem, o options) (*feeds.Item, error) {
      published, err := time.Parse(time.RFC3339, item.Snippet.PublishedAt)
      if err != nil { return nil, fmt.Errorf("could not parse published date of video %s: %w", item.Id, err) }
      enclosure, err := y.formatEnclosure(item, o)
      if err != nil { return nil, fmt.Errorf("could not format enclosure url: %w", err) }
      return &feeds.Item{
          Title: item.Snippet.Title,
          Link:  &feeds.Link{Href: fmt.Sprintf("https://youtube.com/watch?v=%s", item.Snippet.ResourceId.VideoId)},
          Id: item.Snippet.ResourceId.VideoId, Created: published,
          Description: item.Snippet.Description, Enclosure: enclosure}, nil
  }
  \<close>
\<close>

definition mapToFeedItem :: "lib \<Rightarrow> PlaylistItem \<Rightarrow> options \<Rightarrow> error + Item" where
  "mapToFeedItem L item opts =
     (case time_Parse L (Snippet_PublishedAt item) of
        None \<Rightarrow>
          Inl (Wrapped (''could not parse published date of video '' @ Item_Id item) TimeFailure)
      | Some published \<Rightarrow>
          (case formatEnclosure L item opts of
             Inl err \<Rightarrow> Inl (Wrapped ''could not format enclosure url'' err)
           | Inr enclosure \<Rightarrow>
               Inr \<lparr>Title = Snippet_Title item,
                    Link = ''https://youtube.com/watch?v='' @ ResourceId_VideoId item,
                    Id = ResourceId_VideoId item,
                    Created = published,
                    Description = Snippet_Description item,
                    Enclosure = enclosure\<rparr>))"

section \<open>Feed assembly\<close>

text \<open>
  \<^verbatim>\<open>
  func (y *YoutubeAPIService) videos(ctx context.Context, playlistId string, o options) ([]*feeds.Item, error) {
      y.Cache.InvalidateCacheIfDirty(playlistId, o.limit)
      client, err := y.client(ctx)
      if err != nil { return nil, err }
      call := client.PlaylistItems.List(...).PlaylistId(playlistId)
      videos := make([]*feeds.Item, 0)
      for item, err := range take(o.limit, y.allPlaylistItems(ctx, call)) {
          if err != nil { return nil, err }
          video, err := y.mapToFeedItem(item, o)
          if err != nil { return nil, err }
          videos = append(videos, video)
          if y.Cache.HasItem(playlistId, video) { break }
      }
      y.Cache.Put(playlistId, videos...)
      after := videos[len(videos)-1].Created.Format(time.RFC3339)
      for item, err := range take(max(0, o.limit-len(videos)), y.Cache.Iter(playlistId, after)) {
          if err != nil { return nil, err }
          videos = append(videos, item)
      }
      y.Cache.UpdateMaxLimit(playlistId, o.limit)
      return videos, nil
  }
  \<close>
  The body of a loop is a callback on the variables it changes: the slice \<^verbatim>\<open>videos\<close> and,
  once the body has executed \<^verbatim>\<open>return nil, err\<close>, that error. \<^verbatim>\<open>videos\<close> is reached from
  \<^verbatim>\<open>Channel\<close> after the client has been made, so \<^verbatim>\<open>y.client\<close> returns the stored client. The
  second loop is reached with a non-empty slice only, which \<^verbatim>\<open>take\<close> allows for a positive
  limit only, and the slice is then no longer than the limit: the subtraction does not
  wrap.
\<close>

type_synonym loop_state = "Item list \<times> error option"

definition live_body :: "lib \<Rightarrow> Cache \<Rightarrow> string \<Rightarrow> options \<Rightarrow> (error + PlaylistItem, loop_state) yield" where
  "live_body L c playlistId opts el = (\<lambda>(videos, ret).
     case el of
       Inl err \<Rightarrow> (False, (videos, Some err))
     | Inr item \<Rightarrow>
         (case mapToFeedItem L item opts of
            Inl err \<Rightarrow> (False, (videos, Some err))
          | Inr video \<Rightarrow>
              if HasItem c playlistId video then (False, (videos @ [video], ret))
              else (True, (videos @ [video], ret))))"

definition fallback_body :: "(error + Item, loop_state) yield" where
  "fallback_body el = (\<lambda>(videos, ret).
     case el of
       Inl err \<Rightarrow> (False, (videos, Some err))
     | Inr item \<Rightarrow> (True, (videos @ [item], ret)))"

text \<open>The first loop, on the cache as \<^verbatim>\<open>InvalidateCacheIfDirty\<close> left it.\<close>

definition live_phase :: "lib \<Rightarrow> Cache \<Rightarrow> remote \<Rightarrow> string \<Rightarrow> options \<Rightarrow> (int \<times> loop_state) outcome" where
  "live_phase L c r playlistId opts =
     take_seq (limit opts) (allPlaylistItems r) (live_body L c playlistId opts) (0, ([], None))"

text \<open>The second loop, on the cache as \<^verbatim>\<open>Put\<close> left it, from the videos of the first.\<close>

definition fallback_phase :: "Cache \<Rightarrow> string \<Rightarrow> options \<Rightarrow> Item list \<Rightarrow> (int \<times> loop_state) outcome" where
  "fallback_phase c playlistId opts videos =
     take_seq (max 0 (limit opts - int (length videos)))
       (Iter c playlistId (Format_RFC3339 (Created (last videos))))
       fallback_body (0, (videos, None))"

definition videos :: "lib \<Rightarrow> Cache \<Rightarrow> remote \<Rightarrow> string \<Rightarrow> options \<Rightarrow> (error + Item list) outcome \<times> Cache" where
  "videos L c r playlistId opts =
     (let c1 = InvalidateCacheIfDirty c playlistId (limit opts)
      in case live_phase L c1 r playlistId opts of
           Panicked p \<Rightarrow> (Panicked p, c1)
         | Returned (_, (vs, Some err)) \<Rightarrow> (Returned (Inl err), c1)
         | Returned (_, (vs, None)) \<Rightarrow>
             (let c2 = Put c1 playlistId vs
              in if vs = [] then (Panicked IndexOutOfRange, c2)
                 else case fallback_phase c2 playlistId opts vs of
                        Panicked p \<Rightarrow> (Panicked p, c2)
                      | Returned (_, (vs', Some err)) \<Rightarrow> (Returned (Inl err), c2)
                      | Returned (_, (vs', None)) \<Rightarrow>
                          (Returned (Inr vs'), UpdateMaxLimit c2 playlistId (limit opts))))"

section \<open>The sequences as lists\<close>

text \<open>
  The elements that the remote sequence holds: the items of all pages, then the error of
  the failed request when there is one.
\<close>

definition remote_sequence :: "remote \<Rightarrow> (error + PlaylistItem) list" where
  "remote_sequence r =
     map Inr (concat (pages r))
     @ (case failure r of None \<Rightarrow> [] | Some m \<Rightarrow> [Inl (RemoteFailure m)])"

text \<open>A sequence ends with its first error.\<close>

fun upto_error :: "(error + 'a) list \<Rightarrow> (error + 'a) list" where
  "upto_error [] = []"
| "upto_error (Inl e # xs) = [Inl e]"
| "upto_error (Inr x # xs) = Inr x # upto_error xs"

text \<open>
  The records of a bucket whose keys are below a key, greatest key first, decoded, up to the
  first that does not decode.
\<close>

definition records_below :: "bucket \<Rightarrow> string \<Rightarrow> (error + Item) list" where
  "records_below b after =
     upto_error (map (\<lambda>e. json_Unmarshal (snd e)) (rev (filter (\<lambda>e. fst e < after) b)))"

text \<open>The entry that \<^verbatim>\<open>Put\<close> writes for an item.\<close>

definition entry :: "Item \<Rightarrow> string \<times> bval" where
  "entry item = (item_key item, Json item)"

text \<open>A bucket is kept in strictly ascending order of its keys.\<close>

definition wf_bucket :: "bucket \<Rightarrow> bool" where
  "wf_bucket b = sorted_wrt (<) (map fst b)"

text \<open>The limit that is stored for a playlist.\<close>

definition stored_limit :: "Cache \<Rightarrow> string \<Rightarrow> int option" where
  "stored_limit c playlistId =
     (case c of
        None \<Rightarrow> None
      | Some d \<Rightarrow> (case buckets d playlistId of None \<Rightarrow> None | Some b \<Rightarrow> Atoi_Get b ''last-limit''))"

section \<open>Concrete data\<close>

text \<open>
  Library functions for the examples: a table of the times that \<^verbatim>\<open>time.Parse\<close> returns for
  the texts that occur, one extension for every MIME type, URLs taken as they are.
\<close>

definition utc :: "int \<Rightarrow> nat \<Rightarrow> nat \<Rightarrow> nat \<Rightarrow> nat \<Rightarrow> nat \<Rightarrow> Time" where
  "utc y mo d h mi s =
     \<lparr>Year = y, Month = mo, Day = d, Hour = h, Minute = mi, Second = s, Nanosecond = 0, Offset = 0\<rparr>"

definition demo_lib :: lib where
  "demo_lib =
     \<lparr>time_Parse = map_of
        [(''2024-05-01T10:00:00Z'', utc 2024 5 1 10 0 0),
         (''2024-05-02T10:00:00Z'', utc 2024 5 2 10 0 0),
         (''2024-05-03T10:00:00Z'', utc 2024 5 3 10 0 0),
         (''2024-05-04T10:00:00Z'', utc 2024 5 4 10 0 0),
         (''2024-05-05T10:00:00Z'', utc 2024 5 5 10 0 0)],
      mime_ExtensionsByType = (\<lambda>m. Some [''.mp4'']),
      url_Parse = Some,
      url_String = (\<lambda>u q. u)\<rparr>"

definition upload :: "string \<Rightarrow> string \<Rightarrow> PlaylistItem" where
  "upload vid published =
     \<lparr>Item_Id = ''PLI-'' @ vid, Snippet_Title = ''Video '' @ vid, Snippet_Description = '''',
      Snippet_PublishedAt = published, ResourceId_VideoId = vid\<rparr>"

definition video :: "string \<Rightarrow> Time \<Rightarrow> Item" where
  "video vid t =
     \<lparr>Title = ''Video '' @ vid, Link = ''https://youtube.com/watch?v='' @ vid, Id = vid,
      Created = t, Description = '''', Enclosure = None\<rparr>"

definition two_uploads :: remote where
  "two_uploads =
     \<lparr>pages = [[upload ''v5'' ''2024-05-05T10:00:00Z'', upload ''v4'' ''2024-05-04T10:00:00Z'']],
      failure = None\<rparr>"

text \<open>
  A database that holds the videos \<open>v5\<close> and \<open>v4\<close> for the playlist \<open>UULFdemo\<close> with the
  stored limit 5, the same with transactions that fail, and a database without that
  playlist.
\<close>

definition v5 :: Item where
  "v5 = video ''v5'' (utc 2024 5 5 10 0 0)"

definition v4 :: Item where
  "v4 = video ''v4'' (utc 2024 5 4 10 0 0)"

definition v3 :: Item where
  "v3 = video ''v3'' (utc 2024 5 3 10 0 0)"

definition bucket54 :: bucket where
  "bucket54 = [entry v4, entry v5, (''last-limit'', Bytes ''5'')]"

definition db54 :: db where
  "db54 = \<lparr>buckets = [''UULFdemo'' \<mapsto> bucket54], fault = None\<rparr>"

definition failing54 :: db where
  "failing54 = \<lparr>buckets = [''UULFdemo'' \<mapsto> bucket54], fault = Some ''database not open''\<rparr>"

definition empty_db :: db where
  "empty_db = \<lparr>buckets = Map.empty, fault = None\<rparr>"

text \<open>A playlist of two uploads whose third request fails.\<close>

definition two_uploads_then_failure :: remote where
  "two_uploads_then_failure = two_uploads\<lparr>failure := Some ''quotaExceeded''\<rparr>"

text \<open>
  A playlist of five uploads on two pages, and a database that holds the three oldest of
  them with the stored limit 5.
\<close>

definition v2 :: Item where
  "v2 = video ''v2'' (utc 2024 5 2 10 0 0)"

definition v1 :: Item where
  "v1 = video ''v1'' (utc 2024 5 1 10 0 0)"

definition five_uploads :: remote where
  "five_uploads =
     \<lparr>pages = [[upload ''v5'' ''2024-05-05T10:00:00Z'', upload ''v4'' ''2024-05-04T10:00:00Z'',
                upload ''v3'' ''2024-05-03T10:00:00Z''],
               [upload ''v2'' ''2024-05-02T10:00:00Z'', upload ''v1'' ''2024-05-01T10:00:00Z'']],
      failure = None\<rparr>"

definition bucket321 :: bucket where
  "bucket321 = [entry v1, entry v2, entry v3, (''last-limit'', Bytes ''5'')]"

definition db321 :: db where
  "db321 = \<lparr>buckets = [''UULFdemo'' \<mapsto> bucket321], fault = None\<rparr>"

text \<open>The same three videos with the stored limit 3.\<close>

definition db321_limit3 :: db where
  "db321_limit3 =
     \<lparr>buckets = [''UULFdemo'' \<mapsto> [entry v1, entry v2, entry v3, (''last-limit'', Bytes ''3'')]],
      fault = None\<rparr>"

text \<open>
  Two videos \<open>b\<close> and \<open>a\<close> published in the same second, both in the cache with the stored
  limit 3, and a playlist that lists a newer video before them.
\<close>

definition vb :: Item where
  "vb = video ''b'' (utc 2024 5 3 10 0 0)"

definition va :: Item where
  "va = video ''a'' (utc 2024 5 3 10 0 0)"

definition same_second_uploads :: remote where
  "same_second_uploads =
     \<lparr>pages = [[upload ''v4'' ''2024-05-04T10:00:00Z'', upload ''b'' ''2024-05-03T10:00:00Z'',
                upload ''a'' ''2024-05-03T10:00:00Z'']],
      failure = None\<rparr>"

definition bucket_ab :: bucket where
  "bucket_ab = [entry va, entry vb, (''last-limit'', Bytes ''3'')]"

definition db_ab :: db where
  "db_ab = \<lparr>buckets = [''UULFdemo'' \<mapsto> bucket_ab], fault = None\<rparr>"

text \<open>
  Two videos of one second that differ in the fraction of the second, and two videos whose
  times are written in different zones.
\<close>

definition late_a :: Item where
  "late_a = video ''a'' ((utc 2024 5 3 10 0 0)\<lparr>Nanosecond := 900000000\<rparr>)"

definition early_b :: Item where
  "early_b = video ''b'' ((utc 2024 5 3 10 0 0)\<lparr>Nanosecond := 100000000\<rparr>)"

definition noon_east :: Item where
  "noon_east = video ''p'' ((utc 2024 5 3 12 0 0)\<lparr>Offset := 7200\<rparr>)"

definition eleven_utc :: Item where
  "eleven_utc = video ''q'' (utc 2024 5 3 11 0 0)"

section \<open>Properties of take\<close>






lemma range_list_collect: "range_list xs collect acc = (True, acc @ xs)"
  by (induction xs arbitrary: acc) (auto simp: collect_def)





section \<open>Properties of the decimal conversions\<close>

lemma digit_of_digit_char: "d < 10 \<Longrightarrow> digit_of (digit_char d) = Some d"
proof -
  assume "d < 10"
  then have "d \<in> {0,1,2,3,4,5,6,7,8,9}" by auto
  then show ?thesis
    by (auto simp: digit_of_def digit_char_def)
qed

lemma digits_value_append:
  "digits_value (xs @ ys) acc =
     (case digits_value xs acc of None \<Rightarrow> None | Some a \<Rightarrow> digits_value ys a)"
  by (induction xs arbitrary: acc) (auto split: option.splits)

lemma digits_value_digits_of: "digits_value (digits_of n) 0 = Some n"
proof (induction n rule: digits_of.induct)
  case (1 n)
  show ?case
  proof (cases "n < 10")
    case True
    then show ?thesis
      by (subst digits_of.simps) (simp add: digit_of_digit_char)
  next
    case False
    with 1 have "digits_value (digits_of (n div 10)) 0 = Some (n div 10)" by simp
    with False show ?thesis
      by (subst digits_of.simps) (simp add: digits_value_append digit_of_digit_char)
  qed
qed

lemma digits_of_not_Nil: "digits_of n \<noteq> []"
  by (subst digits_of.simps) simp

lemma digit_char_not_sign: "d < 10 \<Longrightarrow> digit_char d \<noteq> CHR ''-'' \<and> digit_char d \<noteq> CHR ''+''"
proof -
  assume "d < 10"
  then have "d \<in> {0,1,2,3,4,5,6,7,8,9}" by auto
  then show ?thesis
    by (auto simp: digit_char_def)
qed

lemma hd_digits_of: "\<exists>d cs. d < 10 \<and> digits_of n = digit_char d # cs"
proof (induction n rule: digits_of.induct)
  case (1 n)
  show ?case
  proof (cases "n < 10")
    case True
    then show ?thesis by (subst digits_of.simps) auto
  next
    case False
    with 1 obtain d cs where "d < 10" "digits_of (n div 10) = digit_char d # cs" by auto
    with False show ?thesis by (subst digits_of.simps) auto
  qed
qed

lemma Atoi_Itoa: "- (2 ^ 63) \<le> i \<Longrightarrow> i \<le> 2 ^ 63 - 1 \<Longrightarrow> Atoi (Itoa i) = Some i"
proof -
  assume lo: "- (2 ^ 63) \<le> i" and hi: "i \<le> 2 ^ 63 - 1"
  show ?thesis
  proof (cases "i < 0")
    case True
    with lo hi show ?thesis
      by (simp add: Atoi_def Itoa_def digits_of_not_Nil digits_value_digits_of)
  next
    case False
    obtain d cs where d: "d < 10" "digits_of (nat i) = digit_char d # cs"
      using hd_digits_of by blast
    have v: "digits_value (digit_char d # cs) 0 = Some (nat i)"
      using digits_value_digits_of [of "nat i"] d by simp
    from False lo hi d digit_char_not_sign [OF d(1)] show ?thesis
      unfolding Atoi_def Itoa_def by (simp add: v del: digits_value.simps)
  qed
qed

lemma Atoi_Nil: "Atoi [] = None"
  by (simp add: Atoi_def)

section \<open>The limit of a request\<close>

lemma limit_apply_channel_options:
  "limit (apply_options (channel_options s query)) = channel_limit s query"
  by (simp add: apply_options_def channel_options_def Let_def
      WithLimit_def WithFormat_def WithEnclosureBase_def WithMimeType_def)

text \<open>
  Claim C10, as the code has it. The limit that the handler passes on is the server's
  configured limit when the \<^verbatim>\<open>limit\<close> parameter is absent, is rejected by \<^verbatim>\<open>Atoi\<close> (it is
  not a decimal integer, or it is one that does not fit 64 bits), or is \<open>0\<close>. Every other
  value that \<^verbatim>\<open>Atoi\<close> accepts is passed on unchanged; these are 64-bit values, and the decimal
  text of every 64-bit integer other than \<open>0\<close>, negative ones included, is among them. So
  the limit passed on is \<open>0\<close> exactly when the configured limit is \<open>0\<close> and the parameter is
  absent, rejected or \<open>0\<close>.
\<close>

theorem channel_limit_passed_on:
  "(query ''limit'' = None \<longrightarrow> limit (apply_options (channel_options s query)) = Limit s)
   \<and> (Atoi (Values_Get query ''limit'') = None \<longrightarrow>
        limit (apply_options (channel_options s query)) = Limit s)
   \<and> (Atoi (Values_Get query ''limit'') = Some 0 \<longrightarrow>
        limit (apply_options (channel_options s query)) = Limit s)
   \<and> (\<forall>n. Atoi (Values_Get query ''limit'') = Some n \<and> n \<noteq> 0 \<longrightarrow>
        limit (apply_options (channel_options s query)) = n)
   \<and> (\<forall>n. Atoi (Values_Get query ''limit'') = Some n \<longrightarrow> - (2 ^ 63) \<le> n \<and> n \<le> 2 ^ 63 - 1)
   \<and> (\<forall>n. - (2 ^ 63) \<le> n \<and> n \<le> 2 ^ 63 - 1 \<and> n \<noteq> 0 \<longrightarrow>
        limit (apply_options (channel_options s (query(''limit'' \<mapsto> [Itoa n])))) = n)
   \<and> (limit (apply_options (channel_options s query)) = 0 \<longleftrightarrow>
        Limit s = 0
        \<and> (Atoi (Values_Get query ''limit'') = None \<or> Atoi (Values_Get query ''limit'') = Some 0))"
proof -
  let ?passed = "limit (apply_options (channel_options s query))"
  let ?parsed = "Atoi (Values_Get query ''limit'')"
  have absent: "query ''limit'' = None \<longrightarrow> ?passed = Limit s"
    by (simp add: limit_apply_channel_options channel_limit_def Values_Get_def Atoi_Nil)
  have rejected: "?parsed = None \<longrightarrow> ?passed = Limit s"
    by (simp add: limit_apply_channel_options channel_limit_def)
  have zero: "?parsed = Some 0 \<longrightarrow> ?passed = Limit s"
    by (simp add: limit_apply_channel_options channel_limit_def)
  have other: "\<forall>n. ?parsed = Some n \<and> n \<noteq> 0 \<longrightarrow> ?passed = n"
    by (simp add: limit_apply_channel_options channel_limit_def)
  have range: "\<forall>n. ?parsed = Some n \<longrightarrow> - (2 ^ 63) \<le> n \<and> n \<le> 2 ^ 63 - 1"
    by (auto simp: Atoi_def Let_def split: prod.splits option.splits if_splits)
  have decimal: "\<forall>n. - (2 ^ 63) \<le> n \<and> n \<le> 2 ^ 63 - 1 \<and> n \<noteq> 0 \<longrightarrow>
      limit (apply_options (channel_options s (query(''limit'' \<mapsto> [Itoa n])))) = n"
    by (simp add: limit_apply_channel_options channel_limit_def Values_Get_def Atoi_Itoa)
  have none: "?passed = 0 \<longleftrightarrow> Limit s = 0 \<and> (?parsed = None \<or> ?parsed = Some 0)"
    by (cases ?parsed) (auto simp: limit_apply_channel_options channel_limit_def)
  from absent rejected zero other range decimal none show ?thesis
    by blast
qed

theorem channel_limit_passed_on_witness:
  "Atoi (Values_Get query_minus5 ''limit'') = Some (- 5) \<and> (- 5 :: int) \<noteq> 0
   \<and> - (2 ^ 63) \<le> (- 5 :: int) \<and> (- 5 :: int) \<le> 2 ^ 63 - 1
   \<and> Limit server15 \<noteq> 0
   \<and> limit (apply_options (channel_options server15 query_minus5)) = - 5
   \<and> limit (apply_options (channel_options server15 query_minus5)) \<noteq> 0
   \<and> limit (apply_options (channel_options server15 (Map.empty(''limit'' \<mapsto> [Itoa (- 5)])))) = - 5
   \<and> limit (apply_options (channel_options server15 Map.empty)) = 15
   \<and> limit (apply_options (channel_options server15 [''limit'' \<mapsto> [''0'']])) = 15
   \<and> limit (apply_options (channel_options server15 [''limit'' \<mapsto> [''ten'']])) = 15"
proof -
  have a: "Atoi (Values_Get query_minus5 ''limit'') = Some (- 5)"
    by (simp add: query_minus5_def Values_Get_def Atoi_def digit_of_def)
  have z: "Atoi (Values_Get [''limit'' \<mapsto> [''0'']] ''limit'') = Some 0"
    by (simp add: Values_Get_def Atoi_def digit_of_def)
  have t: "Atoi (Values_Get [''limit'' \<mapsto> [''ten'']] ''limit'') = None"
    by (simp add: Values_Get_def Atoi_def digit_of_def)
  have l: "Limit server15 = 15"
    by (simp add: server15_def)
  have r: "- (2 ^ 63) \<le> (- 5 :: int) \<and> (- 5 :: int) \<le> 2 ^ 63 - 1"
    by simp
  from channel_limit_passed_on [of query_minus5 server15] a
  have 1: "limit (apply_options (channel_options server15 query_minus5)) = - 5" by simp
  from channel_limit_passed_on [of query_minus5 server15] a l
  have 5: "limit (apply_options (channel_options server15 query_minus5)) \<noteq> 0" by simp
  from channel_limit_passed_on [of Map.empty server15] r
  have 6: "limit (apply_options (channel_options server15 (Map.empty(''limit'' \<mapsto> [Itoa (- 5)])))) = - 5"
    by simp
  from channel_limit_passed_on [of Map.empty server15] l
  have 2: "limit (apply_options (channel_options server15 Map.empty)) = 15" by simp
  from channel_limit_passed_on [of "[''limit'' \<mapsto> [''0'']]" server15] z l
  have 3: "limit (apply_options (channel_options server15 [''limit'' \<mapsto> [''0'']])) = 15" by simp
  from channel_limit_passed_on [of "[''limit'' \<mapsto> [''ten'']]" server15] t l
  have 4: "limit (apply_options (channel_options server15 [''limit'' \<mapsto> [''ten'']])) = 15" by simp
  from a l r 1 2 3 4 5 6 show ?thesis by simp
qed

text \<open>
  Claim C10, as it is stated, fails. A server started with \<^verbatim>\<open>YT2RSS_LIMIT=0\<close> has the
  configured limit \<open>0\<close>, and a request to it with no \<^verbatim>\<open>limit\<close> parameter, with \<^verbatim>\<open>limit=0\<close> or
  with \<^verbatim>\<open>limit=ten\<close> is served with the limit \<open>0\<close>: the caller has requested a feed of no
  items. And \<^verbatim>\<open>limit=99999999999999999999\<close> is an integer other than \<open>0\<close> that is not passed
  on: \<^verbatim>\<open>Atoi\<close> rejects it, and the server started with the limit 15 uses 15.
\<close>

theorem channel_limit_zero_counterexample:
  "main_server [''YT2RSS_LIMIT'' \<mapsto> ''0''] = Some server0
   \<and> limit (apply_options (channel_options server0 Map.empty)) = 0
   \<and> limit (apply_options (channel_options server0 [''limit'' \<mapsto> [''0'']])) = 0
   \<and> limit (apply_options (channel_options server0 [''limit'' \<mapsto> [''ten'']])) = 0
   \<and> Atoi (Values_Get query_huge ''limit'') = None
   \<and> limit (apply_options (channel_options server15 query_huge)) = 15"
proof -
  have 1: "main_server [''YT2RSS_LIMIT'' \<mapsto> ''0''] = Some server0"
    by (simp add: main_server_def intEnv_def env_def server0_def Atoi_def digit_of_def)
  have 2: "limit (apply_options (channel_options server0 Map.empty)) = 0"
    by (simp add: limit_apply_channel_options channel_limit_def Values_Get_def Atoi_def
        server0_def)
  have 3: "limit (apply_options (channel_options server0 [''limit'' \<mapsto> [''0'']])) = 0"
    by (simp add: limit_apply_channel_options channel_limit_def Values_Get_def Atoi_def
        digit_of_def server0_def)
  have 4: "limit (apply_options (channel_options server0 [''limit'' \<mapsto> [''ten'']])) = 0"
    by (simp add: limit_apply_channel_options channel_limit_def Values_Get_def Atoi_def
        digit_of_def server0_def)
  have 5: "Atoi (Values_Get query_huge ''limit'') = None"
    by (simp add: query_huge_def Values_Get_def Atoi_def digit_of_def)
  have 6: "limit (apply_options (channel_options server15 query_huge)) = 15"
    by (simp add: limit_apply_channel_options channel_limit_def 5 server15_def)
  from 1 2 3 4 5 6 show ?thesis by simp
qed

section \<open>Sequences and loops as lists\<close>

lemma range_list_append:
  "range_list (xs @ ys) body s =
     (case range_list xs body s of
        (True, s') \<Rightarrow> range_list ys body s'
      | (False, s') \<Rightarrow> (False, s'))"
  by (induction xs arbitrary: s) (auto split: prod.splits bool.splits)

lemma range_list_map: "range_list (map f xs) body s = range_list xs (\<lambda>x. body (f x)) s"
  by (induction xs arbitrary: s) (auto split: prod.splits bool.splits)

lemma Pages_range_list:
  "Pages ps fail
     (\<lambda>pl s. case range_list pl body s of (True, s') \<Rightarrow> (None, s') | (False, s') \<Rightarrow> (Some Cancelled, s')) s
   = (case range_list (concat ps) body s of
        (True, s') \<Rightarrow> (map_option RemoteFailure fail, s')
      | (False, s') \<Rightarrow> (Some Cancelled, s'))"
  by (induction ps arbitrary: s) (auto simp: range_list_append split: prod.splits bool.splits)

lemma allPlaylistItems_list_seq:
  "allPlaylistItems r yield s = list_seq (remote_sequence r) yield s"
proof -
  obtain fin s' where rl: "range_list (concat (pages r)) (\<lambda>e. yield (Inr e)) s = (fin, s')"
    by (cases "range_list (concat (pages r)) (\<lambda>e. yield (Inr e)) s")
  show ?thesis
  proof (cases "failure r")
    case None
    with rl show ?thesis
      by (cases fin)
        (simp_all add: allPlaylistItems_def list_seq_def remote_sequence_def Pages_range_list
          range_list_map)
  next
    case (Some m)
    with rl show ?thesis
      by (cases fin; cases "yield (Inl (RemoteFailure m)) s'"; cases "fst (yield (Inl (RemoteFailure m)) s')")
        (simp_all add: allPlaylistItems_def list_seq_def remote_sequence_def Pages_range_list
          range_list_map range_list_append)
  qed
qed

lemma take_yield_step:
  "take_yield n yield x (c, s) =
     (case yield x s of
        (False, s') \<Rightarrow> (False, (c, s'))
      | (True, s') \<Rightarrow> (if c + 1 \<ge> n then (False, (c + 1, s')) else (True, (c + 1, s'))))"
  by (simp add: take_yield_def Let_def split: prod.splits bool.splits)

lemma range_list_take_yield:
  "0 < n \<Longrightarrow> k = nat (max 1 (n - c)) \<Longrightarrow>
   \<exists>c'. snd (range_list xs (take_yield n yield) (c, s)) = (c', snd (range_list (List.take k xs) yield s))"
proof (induction xs arbitrary: c s k)
  case Nil
  then show ?case by simp
next
  case (Cons x xs)
  obtain b s1 where y: "yield x s = (b, s1)" by (cases "yield x s")
  from Cons.prems have "k \<noteq> 0" by simp
  then obtain m where m: "k = Suc m"
    using not0_implies_Suc by blast
  show ?case
  proof (cases b)
    case False
    with y show ?thesis
      by (simp add: m take_yield_step)
  next
    case True
    show ?thesis
    proof (cases "c + 1 \<ge> n")
      case stop: True
      with m Cons.prems have "m = 0" by simp
      with y True stop show ?thesis
        by (simp add: m take_yield_step)
    next
      case go: False
      with m Cons.prems have m': "m = nat (max 1 (n - (c + 1)))" by simp
      from Cons.IH [OF Cons.prems(1) m']
      obtain c' where
        "snd (range_list xs (take_yield n yield) (c + 1, s1)) = (c', snd (range_list (List.take m xs) yield s1))"
        by blast
      with y True go show ?thesis
        by (simp add: m take_yield_step)
    qed
  qed
qed

lemma take_seq_list_seq:
  "\<exists>c. take_seq n (list_seq xs) yield (0, s) = Returned (c, snd (range_list (List.take (nat n) xs) yield s))"
proof (cases "0 < n")
  case False
  then show ?thesis by (simp add: take_seq_def)
next
  case True
  then have k: "nat n = nat (max 1 (n - 0))" by simp
  from range_list_take_yield [OF True k, of xs yield s] True show ?thesis
    by (auto simp: take_seq_def list_seq_def)
qed

subsection \<open>The two loops of feed assembly\<close>

lemma live_body_error: "live_body L c pl opts (Inl e) (acc, ret) = (False, (acc, Some e))"
  by (simp add: live_body_def)

lemma live_body_fresh:
  "mapToFeedItem L i opts = Inr v \<Longrightarrow> \<not> HasItem c pl v \<Longrightarrow>
   live_body L c pl opts (Inr i) (acc, ret) = (True, (acc @ [v], ret))"
  by (simp add: live_body_def)

lemma live_body_pivot:
  "mapToFeedItem L i opts = Inr v \<Longrightarrow> HasItem c pl v \<Longrightarrow>
   live_body L c pl opts (Inr i) (acc, ret) = (False, (acc @ [v], ret))"
  by (simp add: live_body_def)

lemma live_body_map_error:
  "mapToFeedItem L i opts = Inl e \<Longrightarrow>
   live_body L c pl opts (Inr i) (acc, ret) = (False, (acc, Some e))"
  by (simp add: live_body_def)

lemma live_fresh_run:
  "list_all2 (\<lambda>i v. mapToFeedItem L i opts = Inr v \<and> \<not> HasItem c pl v) raw vs \<Longrightarrow>
   range_list (map Inr raw @ rest) (live_body L c pl opts) (acc, ret)
   = range_list rest (live_body L c pl opts) (acc @ vs, ret)"
proof (induction raw vs arbitrary: acc rule: list_all2_induct)
  case Nil
  then show ?case by simp
next
  case (Cons i raw v vs)
  then show ?case
    by (simp add: live_body_fresh)
qed

lemma fallback_run:
  "range_list (map Inr items) fallback_body (acc, ret) = (True, (acc @ items, ret))"
  by (induction items arbitrary: acc) (simp_all add: fallback_body_def)

lemma live_phase_elements:
  "\<exists>n. live_phase L c r pl opts =
     Returned (n, snd (range_list (List.take (nat (limit opts)) (remote_sequence r))
                         (live_body L c pl opts) ([], None)))"
proof -
  have "live_phase L c r pl opts =
          take_seq (limit opts) (list_seq (remote_sequence r)) (live_body L c pl opts) (0, ([], None))"
    unfolding live_phase_def
    by (rule arg_cong [where f = "\<lambda>q. take_seq (limit opts) q (live_body L c pl opts) (0, ([], None))"])
       (intro ext, rule allPlaylistItems_list_seq)
  then show ?thesis
    using take_seq_list_seq [of "limit opts" "remote_sequence r" "live_body L c pl opts" "([], None)"]
    by simp
qed

subsection \<open>The walk of the cursor\<close>

lemma walk_0: "walk b 0 yield s = (None, s)"
  by (subst walk.simps) (simp add: Prev_def)

lemma walk_Suc:
  "Suc pos \<le> length b \<Longrightarrow>
   walk b (Suc pos) yield s =
     (case json_Unmarshal (snd (b ! pos)) of
        Inl err \<Rightarrow> (Some err, s)
      | Inr item \<Rightarrow>
          (case yield (Inr item) s of
             (False, s') \<Rightarrow> (None, s')
           | (True, s') \<Rightarrow> walk b pos yield s'))"
  by (subst walk.simps) (simp add: Prev_def split: prod.splits)

lemma walk_range_list:
  "pos \<le> length b \<Longrightarrow>
   (case walk b pos yield s of
      (Some err, s') \<Rightarrow> snd (yield (Inl err) s')
    | (None, s') \<Rightarrow> s')
   = snd (range_list (upto_error (map (\<lambda>e. json_Unmarshal (snd e)) (rev (List.take pos b)))) yield s)"
proof (induction pos arbitrary: s)
  case 0
  then show ?case by (simp add: walk_0)
next
  case (Suc pos)
  then have lt: "pos < length b" and le: "pos \<le> length b" by simp_all
  have tk: "rev (List.take (Suc pos) b) = b ! pos # rev (List.take pos b)"
    using lt by (simp add: take_Suc_conv_app_nth)
  show ?case
  proof (cases "json_Unmarshal (snd (b ! pos))")
    case (Inl err)
    then show ?thesis
      using Suc.prems
      by (cases "yield (Inl err) s"; cases "fst (yield (Inl err) s)") (simp_all add: walk_Suc tk)
  next
    case (Inr item)
    obtain go s1 where y: "yield (Inr item) s = (go, s1)" by (cases "yield (Inr item) s")
    show ?thesis
    proof (cases go)
      case True
      with Inr y Suc.IH [OF le, of s1] Suc.prems show ?thesis
        by (simp add: walk_Suc tk)
    next
      case False
      with Inr y Suc.prems show ?thesis
        by (simp add: walk_Suc tk)
    qed
  qed
qed

lemma Seek_le_length: "Seek b k \<le> length b"
  by (simp add: Seek_def length_takeWhile_le)

lemma take_Seek: "List.take (Seek b k) b = takeWhile (\<lambda>e. fst e < k) b"
  by (simp add: Seek_def takeWhile_eq_take [symmetric])

lemma Iter_takeWhile:
  "fault d = None \<Longrightarrow> buckets d pl = Some b \<Longrightarrow>
   Iter (Some d) pl after yield s =
     list_seq (upto_error (map (\<lambda>e. json_Unmarshal (snd e)) (rev (takeWhile (\<lambda>e. fst e < after) b)))) yield s"
  using walk_range_list [where pos = "Seek b after" and b = b and yield = yield and s = s, OF Seek_le_length]
  by (simp add: Iter_def View_def list_seq_def take_Seek split: prod.splits option.splits)

lemma Iter_fault:
  "fault d = Some m \<Longrightarrow>
   Iter (Some d) pl after yield s = list_seq [Inl (StoreFailure m)] yield s"
  by (cases "yield (Inl (StoreFailure m)) s"; cases "fst (yield (Inl (StoreFailure m)) s)")
     (simp_all add: Iter_def View_def list_seq_def)

lemma takeWhile_sorted_filter:
  "sorted_wrt (<) (map fst b) \<Longrightarrow>
   takeWhile (\<lambda>e. fst e < (k :: string)) b = filter (\<lambda>e. fst e < k) b"
proof (induction b)
  case Nil
  then show ?case by simp
next
  case (Cons e b)
  show ?case
  proof (cases "fst e < k")
    case True
    with Cons show ?thesis by simp
  next
    case False
    from Cons.prems have "\<forall>x \<in> set b. fst e < fst x" by simp
    with False have "\<forall>x \<in> set b. \<not> fst x < k" by auto
    then have "filter (\<lambda>e. fst e < k) b = []" by (simp add: filter_empty_conv)
    with False show ?thesis by simp
  qed
qed

section \<open>Feed assembly on an empty live phase and without a cache\<close>

lemma Pages_empty_pages:
  "Pages (replicate k []) None
     (\<lambda>pl s. case range_list pl body s of (True, s') \<Rightarrow> (None, s') | (False, s') \<Rightarrow> (Some Cancelled, s')) s
   = (None, s)"
  by (induction k) auto

lemma live_phase_limit_zero:
  "limit opts \<le> 0 \<Longrightarrow> live_phase L c r playlistId opts = Returned (0, ([], None))"
  by (simp add: live_phase_def take_seq_def)

lemma live_phase_empty_remote:
  "live_phase L c \<lparr>pages = replicate k [], failure = None\<rparr> playlistId opts = Returned (0, ([], None))"
  by (simp add: live_phase_def take_seq_def allPlaylistItems_def Pages_empty_pages)

text \<open>
  Claim C1, as the code has it. With the limit \<open>0\<close>, and with any limit on a playlist whose
  pages hold no item, the first loop collects nothing and \<^verbatim>\<open>videos[len(videos)-1]\<close> panics
  with an index out of range: no empty list is returned.
\<close>

theorem videos_empty_live_phase_panics:
  "fst (videos L c r playlistId (opts\<lparr>limit := 0\<rparr>)) = Panicked IndexOutOfRange
   \<and> fst (videos L c \<lparr>pages = replicate k [], failure = None\<rparr> playlistId opts)
       = Panicked IndexOutOfRange"
  by (simp add: videos_def live_phase_limit_zero live_phase_empty_remote Let_def)

section \<open>Buckets\<close>

lemma map_of_bucket_Put: "map_of (bucket_Put b k v) = (map_of b)(k \<mapsto> v)"
  by (induction b) (auto simp: fun_eq_iff)

lemma bucket_Get_bucket_Put:
  "bucket_Get (bucket_Put b k v) k' = (if k' = k then Some v else bucket_Get b k')"
  by (simp add: bucket_Get_def map_of_bucket_Put)

lemma keys_bucket_Put: "fst ` set (bucket_Put b k v) = insert k (fst ` set b)"
  by (simp add: dom_map_of_conv_image_fst [symmetric] map_of_bucket_Put)

lemma wf_bucket_Put: "wf_bucket b \<Longrightarrow> wf_bucket (bucket_Put b k v)"
proof (induction b)
  case Nil
  then show ?case by (simp add: wf_bucket_def)
next
  case (Cons e b)
  obtain k' v' where e: "e = (k', v')" by (cases e)
  from Cons.prems have b: "wf_bucket b" and lt: "\<forall>x \<in> fst ` set b. k' < x"
    by (simp_all add: wf_bucket_def e)
  consider (before) "k < k'" | (same) "k = k'" | (behind) "k' < k"
    using less_linear by blast
  then show ?case
  proof cases
    case before
    have "\<forall>x \<in> fst ` set b. k < x"
    proof
      fix x
      assume "x \<in> fst ` set b"
      with lt have "k' < x" by blast
      with before show "k < x" by (rule less_trans)
    qed
    with before Cons.prems show ?thesis
      by (simp add: wf_bucket_def e)
  next
    case same
    with Cons.prems show ?thesis
      by (simp add: wf_bucket_def e)
  next
    case behind
    then have nb: "\<not> k < k'" and ne: "k \<noteq> k'"
      by (simp_all add: less_not_sym)
    from lt behind have "\<forall>x \<in> fst ` set (bucket_Put b k v). k' < x"
      by (simp add: keys_bucket_Put)
    with Cons.IH [OF b] nb ne show ?thesis
      by (simp add: wf_bucket_def e)
  qed
qed

lemma dropWhile_sorted_filter:
  "sorted_wrt (<) (map fst b) \<Longrightarrow>
   dropWhile (\<lambda>e. fst e < (k :: string)) b = filter (\<lambda>e. k \<le> fst e) b"
proof (induction b)
  case Nil
  then show ?case by simp
next
  case (Cons e b)
  show ?case
  proof (cases "fst e < k")
    case True
    with Cons show ?thesis by simp
  next
    case False
    from Cons.prems have "\<forall>x \<in> set b. fst e < fst x" by simp
    with False have "\<forall>x \<in> set b. k \<le> fst x" by auto
    then have "filter (\<lambda>e. k \<le> fst e) b = b" by (simp add: filter_id_conv)
    with False show ?thesis by simp
  qed
qed

lemma drop_Seek: "drop (Seek b k) b = dropWhile (\<lambda>e. fst e < k) b"
  by (simp add: Seek_def dropWhile_eq_drop [symmetric])

section \<open>Evaluating the examples\<close>

lemmas base_defs = demo_lib_def utc_def upload_def video_def entry_def

lemmas eval_defs = videos_def live_phase_def fallback_phase_def take_seq_def take_yield_def
  allPlaylistItems_def live_body_def fallback_body_def mapToFeedItem_def formatEnclosure_def
  defaultOptions_def InvalidateCacheIfDirty_def UpdateMaxLimit_def HasItem_def Put_def Iter_def
  View_def Update_def CreateBucketIfNotExists_def Let_def
  Atoi_Get_def bucket_Get_def Atoi_def digit_of_def Itoa_def digits_of.simps digit_char_def
  json_Unmarshal_def Seek_def Prev_def walk.simps
  item_key_def Format_RFC3339_def appendInt_def pad_def format_zone_def

lemma key_v5: "item_key v5 = ''2024-05-05T10:00:00Z-v5''"
  by (simp add: item_key_def Format_RFC3339_def appendInt_def pad_def digits_of.simps digit_char_def
      format_zone_def utc_def video_def v5_def)

lemma fmt_v5: "Format_RFC3339 (Created v5) = ''2024-05-05T10:00:00Z''"
  by (simp add: item_key_def Format_RFC3339_def appendInt_def pad_def digits_of.simps digit_char_def
      format_zone_def utc_def video_def v5_def)

lemma key_v4: "item_key v4 = ''2024-05-04T10:00:00Z-v4''"
  by (simp add: item_key_def Format_RFC3339_def appendInt_def pad_def digits_of.simps digit_char_def
      format_zone_def utc_def video_def v4_def)

lemma wf54: "wf_bucket bucket54"
  by (simp add: wf_bucket_def bucket54_def entry_def key_v5 key_v4)

lemma rb54: "records_below bucket54 (Format_RFC3339 (Created v5)) = [Inr v4]"
  by (simp add: records_below_def bucket54_def entry_def key_v5 key_v4 fmt_v5 json_Unmarshal_def)

section \<open>The stored limit\<close>

lemma InvalidateCacheIfDirty_kept:
  "fault d = None \<Longrightarrow> buckets d pl = Some b \<Longrightarrow> Atoi_Get b ''last-limit'' = Some lastLimit \<Longrightarrow>
   lim \<le> lastLimit \<Longrightarrow>
   InvalidateCacheIfDirty (Some d) pl lim =
     Some (d\<lparr>buckets := (buckets d)(pl \<mapsto> bucket_Put b ''last-limit'' (Bytes (Itoa lim)))\<rparr>)"
  by (simp add: InvalidateCacheIfDirty_def Update_def CreateBucketIfNotExists_def Let_def)

lemma InvalidateCacheIfDirty_reset:
  "fault d = None \<Longrightarrow> buckets d pl = Some b \<Longrightarrow>
   (case Atoi_Get b ''last-limit'' of None \<Rightarrow> True | Some lastLimit \<Rightarrow> lastLimit < lim) \<Longrightarrow>
   InvalidateCacheIfDirty (Some d) pl lim =
     Some (d\<lparr>buckets := (buckets d)(pl \<mapsto> [(''last-limit'', Bytes (Itoa lim))])\<rparr>)"
  by (simp add: InvalidateCacheIfDirty_def Update_def CreateBucketIfNotExists_def Let_def)

text \<open>
  Claim C3, as the code has it. On a playlist whose bucket holds a stored limit that is not
  below the requested one, \<^verbatim>\<open>InvalidateCacheIfDirty\<close> changes nothing but the entry
  \<^verbatim>\<open>last-limit\<close> of that bucket: every other key of the bucket and every other bucket is as
  before. The stored limit itself is overwritten with the requested limit.
\<close>

theorem InvalidateCacheIfDirty_overwrites_limit:
  assumes "fault d = None" and "buckets d pl = Some b"
    and "Atoi_Get b ''last-limit'' = Some lastLimit" and "lim \<le> lastLimit"
    and "- (2 ^ 63) \<le> lim" and "lim \<le> 2 ^ 63 - 1"
  shows "\<exists>b'. InvalidateCacheIfDirty (Some d) pl lim = Some (d\<lparr>buckets := (buckets d)(pl \<mapsto> b')\<rparr>)
           \<and> (\<forall>k. k \<noteq> ''last-limit'' \<longrightarrow> bucket_Get b' k = bucket_Get b k)
           \<and> bucket_Get b' ''last-limit'' = Some (Bytes (Itoa lim))
           \<and> stored_limit (InvalidateCacheIfDirty (Some d) pl lim) pl = Some lim"
proof -
  let ?b' = "bucket_Put b ''last-limit'' (Bytes (Itoa lim))"
  have 1: "InvalidateCacheIfDirty (Some d) pl lim = Some (d\<lparr>buckets := (buckets d)(pl \<mapsto> ?b')\<rparr>)"
    by (rule InvalidateCacheIfDirty_kept [OF assms(1-4)])
  have 2: "\<forall>k. k \<noteq> ''last-limit'' \<longrightarrow> bucket_Get ?b' k = bucket_Get b k"
    by (simp add: bucket_Get_bucket_Put)
  have 3: "bucket_Get ?b' ''last-limit'' = Some (Bytes (Itoa lim))"
    by (simp add: bucket_Get_bucket_Put)
  have 4: "stored_limit (InvalidateCacheIfDirty (Some d) pl lim) pl = Some lim"
    by (simp add: 1 stored_limit_def Atoi_Get_def 3 Atoi_Itoa [OF assms(5,6)])
  from 1 2 3 4 show ?thesis by blast
qed

theorem InvalidateCacheIfDirty_overwrites_limit_witness:
  "fault db54 = None \<and> buckets db54 ''UULFdemo'' = Some bucket54
   \<and> Atoi_Get bucket54 ''last-limit'' = Some 5 \<and> (3 :: int) \<le> 5
   \<and> - (2 ^ 63) \<le> (3 :: int) \<and> (3 :: int) \<le> 2 ^ 63 - 1
   \<and> stored_limit (InvalidateCacheIfDirty (Some db54) ''UULFdemo'' 3) ''UULFdemo'' = Some 3"
proof -
  have 1: "fault db54 = None" and 2: "buckets db54 ''UULFdemo'' = Some bucket54"
    by (simp_all add: db54_def)
  have 3: "Atoi_Get bucket54 ''last-limit'' = Some 5"
    by (simp add: eval_defs base_defs bucket54_def v5_def v4_def)
  have 4: "(3 :: int) \<le> 5" and 5: "- (2 ^ 63) \<le> (3 :: int)" and 6: "(3 :: int) \<le> 2 ^ 63 - 1"
    by simp_all
  from InvalidateCacheIfDirty_overwrites_limit [OF 1 2 3 4 5 6] 1 2 3 show ?thesis
    by auto
qed

text \<open>
  Claim C3, as it is stated, fails: with the stored limit 5 and the requested limit 3 the
  stored limit is 3 after \<^verbatim>\<open>InvalidateCacheIfDirty\<close>, and still 3 after the whole request, so
  it has gone down without a reset.
\<close>

theorem InvalidateCacheIfDirty_lowers_limit_counterexample:
  "stored_limit (Some db54) ''UULFdemo'' = Some 5
   \<and> stored_limit (InvalidateCacheIfDirty (Some db54) ''UULFdemo'' 3) ''UULFdemo'' = Some 3
   \<and> stored_limit (snd (videos demo_lib (Some db54) two_uploads ''UULFdemo'' (defaultOptions\<lparr>limit := 3\<rparr>)))
       ''UULFdemo'' = Some 3"
  by (simp add: eval_defs stored_limit_def base_defs db54_def bucket54_def v5_def v4_def
      two_uploads_def)

section \<open>The descending iteration\<close>

lemma Iter_records_below:
  "fault d = None \<Longrightarrow> buckets d pl = Some b \<Longrightarrow> wf_bucket b \<Longrightarrow>
   Iter (Some d) pl after yield s = list_seq (records_below b after) yield s"
  by (simp add: Iter_takeWhile records_below_def wf_bucket_def takeWhile_sorted_filter)

text \<open>
  Claim C7, as the code has it. On a database whose transactions work and a bucket that
  exists, the cursor is placed at the first entry whose key is not below \<open>after\<close> (all
  entries before the position have smaller keys, all from the position on do not), and the
  sequence yields the records before that position, greatest key first, up to the first
  record that does not decode, which is yielded as an error. On a database whose transactions
  fail the sequence is the one error of the transaction.
\<close>

theorem Iter_yields_records_below:
  "(fault d = None \<and> buckets d pl = Some b \<and> wf_bucket b \<longrightarrow>
      Iter (Some d) pl after yield s = list_seq (records_below b after) yield s
      \<and> List.take (Seek b after) b = filter (\<lambda>e. fst e < after) b
      \<and> drop (Seek b after) b = filter (\<lambda>e. after \<le> fst e) b)
   \<and> (fault d = Some m \<longrightarrow>
      Iter (Some d) pl after yield s = list_seq [Inl (StoreFailure m)] yield s)"
  by (simp add: Iter_records_below Iter_fault take_Seek drop_Seek wf_bucket_def
      takeWhile_sorted_filter dropWhile_sorted_filter)

theorem Iter_yields_records_below_witness:
  "fault db54 = None \<and> buckets db54 ''UULFdemo'' = Some bucket54 \<and> wf_bucket bucket54
   \<and> Iter (Some db54) ''UULFdemo'' (Format_RFC3339 (Created v5)) collect [] = Returned [Inr v4]
   \<and> fault failing54 = Some ''database not open''
   \<and> Iter (Some failing54) ''UULFdemo'' (Format_RFC3339 (Created v5)) collect []
       = Returned [Inl (StoreFailure ''database not open'')]"
proof -
  have h: "fault db54 = None \<and> buckets db54 ''UULFdemo'' = Some bucket54 \<and> wf_bucket bucket54"
    by (simp add: db54_def wf54)
  have f: "fault failing54 = Some ''database not open''"
    by (simp add: failing54_def)
  from Iter_yields_records_below [where d = db54 and pl = "''UULFdemo''" and b = bucket54
      and after = "Format_RFC3339 (Created v5)" and yield = collect and s = "[]"] h
  have 1: "Iter (Some db54) ''UULFdemo'' (Format_RFC3339 (Created v5)) collect [] = Returned [Inr v4]"
    by (simp add: rb54 list_seq_def range_list_collect)
  from Iter_yields_records_below [where d = failing54 and pl = "''UULFdemo''"
      and m = "''database not open''"
      and after = "Format_RFC3339 (Created v5)" and yield = collect and s = "[]"] f
  have 2: "Iter (Some failing54) ''UULFdemo'' (Format_RFC3339 (Created v5)) collect []
       = Returned [Inl (StoreFailure ''database not open'')]"
    by (simp add: list_seq_def range_list_collect)
  from h f 1 2 show ?thesis by simp
qed

text \<open>
  Claim C7, as it is stated, fails: on a database whose transactions fail the sequence is
  not empty but holds the error, and \<^verbatim>\<open>videos\<close> returns that error to its caller; on a
  database without the bucket the call panics.
\<close>

theorem Iter_fails_caller_counterexample:
  "Iter (Some failing54) ''UULFdemo'' ''2024-05-05T10:00:00Z'' collect []
     = Returned [Inl (StoreFailure ''database not open'')]
   \<and> fst (videos demo_lib (Some failing54) two_uploads ''UULFdemo'' (defaultOptions\<lparr>limit := 3\<rparr>))
     = Returned (Inl (StoreFailure ''database not open''))
   \<and> Iter (Some empty_db) ''UULFdemo'' ''2024-05-05T10:00:00Z'' collect [] = Panicked NilDereference"
  by (simp add: videos_def live_phase_def fallback_phase_def take_seq_def take_yield_def allPlaylistItems_def
     live_body_def fallback_body_def mapToFeedItem_def formatEnclosure_def defaultOptions_def
     base_defs failing54_def bucket54_def v5_def v4_def empty_db_def two_uploads_def
     InvalidateCacheIfDirty_def HasItem_def Put_def Iter_def View_def Update_def collect_def Let_def)

section \<open>A failing remote listing\<close>

text \<open>
  Claim C4. When the request that follows the listed items fails, none of the items is in
  the cache and the limit lies beyond them, \<^verbatim>\<open>videos\<close> returns that error and no item, and
  the cache is as \<^verbatim>\<open>InvalidateCacheIfDirty\<close> left it: nothing of the batch is written and
  the stored limit is not raised.
\<close>

theorem videos_remote_failure:
  assumes "failure r = Some m"
    and "list_all2 (\<lambda>i v. mapToFeedItem L i opts = Inr v
            \<and> \<not> HasItem (InvalidateCacheIfDirty c pl (limit opts)) pl v) (concat (pages r)) vs"
    and "int (length (concat (pages r))) < limit opts"
  shows "videos L c r pl opts =
           (Returned (Inl (RemoteFailure m)), InvalidateCacheIfDirty c pl (limit opts))"
proof -
  let ?c1 = "InvalidateCacheIfDirty c pl (limit opts)"
  let ?e = "RemoteFailure m"
  from assms(1) have seq: "remote_sequence r = map Inr (concat (pages r)) @ [Inl ?e]"
    by (simp add: remote_sequence_def)
  from assms(3) have "length (remote_sequence r) \<le> nat (limit opts)"
    by (simp add: seq)
  then have tk: "List.take (nat (limit opts)) (remote_sequence r) = remote_sequence r"
    by simp
  have "range_list (remote_sequence r) (live_body L ?c1 pl opts) ([], None) = (False, (vs, Some ?e))"
    unfolding seq by (simp add: live_fresh_run [OF assms(2)] live_body_error)
  with live_phase_elements [of L ?c1 r pl opts] tk
  obtain n where "live_phase L ?c1 r pl opts = Returned (n, (vs, Some ?e))"
    by auto
  then show ?thesis
    by (simp add: videos_def Let_def)
qed

theorem videos_remote_failure_witness:
  "failure two_uploads_then_failure = Some ''quotaExceeded''
   \<and> list_all2 (\<lambda>i v. mapToFeedItem demo_lib i (defaultOptions\<lparr>limit := 3\<rparr>) = Inr v
        \<and> \<not> HasItem (InvalidateCacheIfDirty (Some empty_db) ''UULFdemo'' (limit (defaultOptions\<lparr>limit := 3\<rparr>)))
              ''UULFdemo'' v)
       (concat (pages two_uploads_then_failure)) [v5, v4]
   \<and> int (length (concat (pages two_uploads_then_failure))) < limit (defaultOptions\<lparr>limit := 3\<rparr>)
   \<and> videos demo_lib (Some empty_db) two_uploads_then_failure ''UULFdemo'' (defaultOptions\<lparr>limit := 3\<rparr>)
       = (Returned (Inl (RemoteFailure ''quotaExceeded'')), Some empty_db)"
proof -
  have inv: "InvalidateCacheIfDirty (Some empty_db) ''UULFdemo'' 3 = Some empty_db"
    by (simp add: InvalidateCacheIfDirty_def Update_def empty_db_def)
  have 1: "failure two_uploads_then_failure = Some ''quotaExceeded''"
    by (simp add: two_uploads_then_failure_def two_uploads_def)
  have 2: "list_all2 (\<lambda>i v. mapToFeedItem demo_lib i (defaultOptions\<lparr>limit := 3\<rparr>) = Inr v
        \<and> \<not> HasItem (InvalidateCacheIfDirty (Some empty_db) ''UULFdemo'' (limit (defaultOptions\<lparr>limit := 3\<rparr>)))
              ''UULFdemo'' v)
       (concat (pages two_uploads_then_failure)) [v5, v4]"
    by (simp add: inv) (simp add: mapToFeedItem_def formatEnclosure_def HasItem_def View_def
        defaultOptions_def base_defs two_uploads_then_failure_def two_uploads_def v5_def v4_def
        empty_db_def)
  have 3: "int (length (concat (pages two_uploads_then_failure))) < limit (defaultOptions\<lparr>limit := 3\<rparr>)"
    by (simp add: two_uploads_then_failure_def two_uploads_def)
  from videos_remote_failure [OF 1 2 3] inv 1 2 3 show ?thesis
    by simp
qed

section \<open>Without a cache\<close>

text \<open>
  Claim C5, as the code has it. With a nil cache, two uploads and the limit 3 the second loop
  runs \<^verbatim>\<open>Iter\<close> on the nil cache, which panics: the two items are not returned.
\<close>

theorem videos_nil_cache_short_remote_panics:
  "fst (videos demo_lib None two_uploads ''UULFdemo'' (defaultOptions\<lparr>limit := 3\<rparr>))
     = Panicked NilDereference"
  by (simp add: videos_def live_phase_def fallback_phase_def take_seq_def take_yield_def allPlaylistItems_def
     live_body_def mapToFeedItem_def formatEnclosure_def defaultOptions_def base_defs two_uploads_def
     InvalidateCacheIfDirty_def HasItem_def Put_def Iter_def Let_def)

section \<open>Keys, time stamps and the bucket\<close>

lemma less_append_nonempty: "ys \<noteq> [] \<Longrightarrow> (xs :: string) < xs @ ys"
  by (induction xs) (auto simp: neq_Nil_conv)

lemma Format_less_item_key: "Format_RFC3339 (Created v) < item_key v"
  by (simp add: item_key_def less_append_nonempty)

lemma digit_char_less_l: "d < 10 \<Longrightarrow> digit_char d < CHR ''l''"
proof -
  assume "d < 10"
  then have "d \<in> {0,1,2,3,4,5,6,7,8,9}" by auto
  then show ?thesis
    by (auto simp: digit_char_def)
qed

lemma pad_first: "\<exists>c cs. pad w u = c # cs \<and> c < CHR ''l''"
proof (cases "w - length (digits_of u)")
  case 0
  obtain d cs where "d < 10" "digits_of u = digit_char d # cs"
    using hd_digits_of by blast
  with 0 show ?thesis
    by (simp add: pad_def digit_char_less_l)
next
  case (Suc n)
  then show ?thesis
    by (simp add: pad_def)
qed

lemma appendInt_first: "\<exists>c cs. appendInt x w = c # cs \<and> c < CHR ''l''"
proof (cases "x < 0")
  case True
  then show ?thesis by (simp add: appendInt_def)
next
  case False
  with pad_first [of w "nat x"] show ?thesis by (simp add: appendInt_def)
qed

lemma Format_first: "\<exists>c cs. Format_RFC3339 t = c # cs \<and> c < CHR ''l''"
proof -
  obtain c cs where "appendInt (Year t) 4 = c # cs" "c < CHR ''l''"
    using appendInt_first by blast
  then show ?thesis
    by (simp add: Format_RFC3339_def)
qed

lemma Format_less_last_limit: "Format_RFC3339 t < ''last-limit''"
proof -
  obtain c cs where "Format_RFC3339 t = c # cs" "c < CHR ''l''"
    using Format_first by blast
  then show ?thesis by simp
qed

lemma item_key_less_last_limit: "item_key v < ''last-limit''"
proof -
  obtain c cs where "Format_RFC3339 (Created v) = c # cs" "c < CHR ''l''"
    using Format_first by blast
  then show ?thesis by (simp add: item_key_def)
qed

lemma item_key_not_last_limit: "item_key v \<noteq> ''last-limit''"
  using item_key_less_last_limit [of v] by simp

lemma takeWhile_bucket_Put:
  "a \<le> k \<Longrightarrow> takeWhile (\<lambda>e. fst e < a) (bucket_Put b k v) = takeWhile (\<lambda>e. fst e < a) b"
proof (induction b)
  case Nil
  then show ?case by simp
next
  case (Cons e b)
  obtain k' v' where e: "e = (k', v')" by (cases e)
  consider (before) "k < k'" | (same) "k = k'" | (behind) "k' < k"
    using less_linear by blast
  then show ?case
  proof cases
    case before
    with Cons.prems have "\<not> k < a" "\<not> k' < a" by auto
    with before show ?thesis by (simp add: e)
  next
    case same
    with Cons.prems have "\<not> k < a" "\<not> k' < a" by auto
    with same show ?thesis by (simp add: e)
  next
    case behind
    then have "\<not> k < k'" "k \<noteq> k'" by (simp_all add: less_not_sym)
    with Cons show ?thesis by (simp add: e)
  qed
qed

lemma takeWhile_foldl_Put:
  "\<forall>v \<in> set items. a \<le> item_key v \<Longrightarrow>
   takeWhile (\<lambda>e. fst e < a) (foldl (\<lambda>b item. bucket_Put b (item_key item) (Json item)) b items)
   = takeWhile (\<lambda>e. fst e < a) b"
  by (induction items arbitrary: b) (simp_all add: takeWhile_bucket_Put)

lemma bucket_Put_last:
  "\<forall>e \<in> set xs. fst e < k \<Longrightarrow> bucket_Put (xs @ [(k, v)]) k v' = xs @ [(k, v')]"
proof (induction xs)
  case Nil
  then show ?case by simp
next
  case (Cons e xs)
  obtain k' v'' where e: "e = (k', v'')" by (cases e)
  with Cons.prems have "k' < k" by simp
  then have "\<not> k < k'" "k \<noteq> k'" by (simp_all add: less_not_sym)
  with Cons show ?case by (simp add: e)
qed

lemma HasItem_Some:
  "fault d = None \<Longrightarrow> buckets d pl = Some b \<Longrightarrow>
   HasItem (Some d) pl v = (item_key v \<in> fst ` set b)"
  by (simp add: HasItem_def View_def bucket_Get_def map_of_eq_None_iff)

lemma Put_Some:
  "fault d = None \<Longrightarrow> buckets d pl = Some b \<Longrightarrow>
   Put (Some d) pl items =
     Some (d\<lparr>buckets := (buckets d)(pl \<mapsto>
        foldl (\<lambda>b item. bucket_Put b (item_key item) (Json item)) b items)\<rparr>)"
  by (simp add: Put_def Update_def CreateBucketIfNotExists_def)

lemma upto_error_map_Inr: "upto_error (map Inr xs) = map Inr xs"
  by (induction xs) simp_all

lemma fallback_phase_list:
  "fault d = None \<Longrightarrow> buckets d pl = Some b \<Longrightarrow>
   rev (takeWhile (\<lambda>e. fst e < Format_RFC3339 (Created (last vs))) b) = map entry items \<Longrightarrow>
   \<exists>n. fallback_phase (Some d) pl opts vs =
     Returned (n, (vs @ List.take (nat (limit opts - int (length vs))) items, None))"
proof -
  assume d: "fault d = None" "buckets d pl = Some b"
    and tw: "rev (takeWhile (\<lambda>e. fst e < Format_RFC3339 (Created (last vs))) b) = map entry items"
  let ?after = "Format_RFC3339 (Created (last vs))"
  let ?n = "max 0 (limit opts - int (length vs))"
  have dec: "map (\<lambda>e. json_Unmarshal (snd e)) (map entry items) = map Inr items"
    by (simp add: entry_def json_Unmarshal_def)
  have it: "Iter (Some d) pl ?after = list_seq (map Inr items)"
    by (intro ext) (simp only: Iter_takeWhile [OF d] tw dec upto_error_map_Inr)
  obtain n where "take_seq ?n (list_seq (map Inr items)) fallback_body (0, (vs, None))
      = Returned (n, snd (range_list (List.take (nat ?n) (map Inr items)) fallback_body (vs, None)))"
    using take_seq_list_seq [of ?n "map Inr items" fallback_body "(vs, None)"] by blast
  moreover have "nat ?n = nat (limit opts - int (length vs))"
    by (simp add: max_def)
  ultimately show ?thesis
    by (auto simp: fallback_phase_def it take_map fallback_run)
qed

section \<open>The first loop\<close>

lemma videos_result:
  "live_phase L (InvalidateCacheIfDirty c pl (limit opts)) r pl opts = Returned (n, (vs, None)) \<Longrightarrow>
   vs \<noteq> [] \<Longrightarrow>
   fallback_phase (Put (InvalidateCacheIfDirty c pl (limit opts)) pl vs) pl opts vs
     = Returned (n', (vs', None)) \<Longrightarrow>
   fst (videos L c r pl opts) = Returned (Inr vs')"
  by (simp add: videos_def Let_def)

lemma take_remote_sequence:
  "k \<le> length (concat (pages r)) \<Longrightarrow>
   List.take k (remote_sequence r) = map Inr (List.take k (concat (pages r)))"
  by (simp add: remote_sequence_def take_map)

lemma take_past:
  "Suc (length xs) \<le> k \<Longrightarrow> List.take k (xs @ y # ys) = xs @ y # List.take (k - Suc (length xs)) ys"
  by (simp add: take_Cons')

lemma live_phase_pivot:
  assumes raw: "List.take (Suc (length pre)) (concat (pages r)) = pre @ [x]"
    and fresh: "list_all2 (\<lambda>i v. mapToFeedItem L i opts = Inr v \<and> \<not> HasItem c pl v) pre vs"
    and piv: "mapToFeedItem L x opts = Inr p" "HasItem c pl p"
    and lim: "int (length pre) < limit opts"
  shows "\<exists>n. live_phase L c r pl opts = Returned (n, (vs @ [p], None))"
proof -
  let ?raw = "concat (pages r)"
  let ?k = "nat (limit opts)"
  from raw have len: "Suc (length pre) \<le> length ?raw"
    by (metis length_append_singleton length_take min.cobounded1)
  from lim have k: "Suc (length pre) \<le> ?k" by simp
  have split: "?raw = pre @ x # drop (Suc (length pre)) ?raw"
    using append_take_drop_id [of "Suc (length pre)" ?raw] raw by simp
  have "remote_sequence r =
          map Inr pre @ Inr x # (map Inr (drop (Suc (length pre)) ?raw)
             @ (case failure r of None \<Rightarrow> [] | Some m \<Rightarrow> [Inl (RemoteFailure m)]))"
    by (subst remote_sequence_def, subst split) simp
  then obtain rest where "List.take ?k (remote_sequence r) = map Inr pre @ Inr x # rest"
    using take_past [of "map Inr pre" ?k "Inr x"] k by auto
  then have "range_list (List.take ?k (remote_sequence r)) (live_body L c pl opts) ([], None)
      = (False, (vs @ [p], None))"
    by (simp add: live_fresh_run [OF fresh] live_body_pivot [OF piv])
  with live_phase_elements [of L c r pl opts] show ?thesis
    by auto
qed

lemma live_phase_all_fresh:
  assumes fresh: "list_all2 (\<lambda>i v. mapToFeedItem L i opts = Inr v \<and> \<not> HasItem c pl v)
            (List.take (nat (limit opts)) (concat (pages r))) vs"
    and len: "nat (limit opts) \<le> length (concat (pages r))"
  shows "\<exists>n. live_phase L c r pl opts = Returned (n, (vs, None))"
proof -
  have "range_list (map Inr (List.take (nat (limit opts)) (concat (pages r))) @ [])
          (live_body L c pl opts) ([], None) = (True, (vs, None))"
    by (simp only: live_fresh_run [OF fresh]) simp
  with live_phase_elements [of L c r pl opts] take_remote_sequence [OF len] show ?thesis
    by auto
qed

lemma map_of_append_last:
  "k \<notin> fst ` set xs \<Longrightarrow> map_of (xs @ [(k, v)]) k = Some v"
  by (induction xs) auto

lemma key_v3: "item_key v3 = ''2024-05-03T10:00:00Z-v3''"
  and key_v2: "item_key v2 = ''2024-05-02T10:00:00Z-v2''"
  and key_v1: "item_key v1 = ''2024-05-01T10:00:00Z-v1''"
  and fmt_v3: "Format_RFC3339 (Created v3) = ''2024-05-03T10:00:00Z''"
  by (simp_all add: item_key_def Format_RFC3339_def appendInt_def pad_def digits_of.simps
      digit_char_def format_zone_def utc_def video_def v3_def v2_def v1_def)

lemma wf321: "wf_bucket bucket321"
  by (simp add: wf_bucket_def bucket321_def entry_def key_v5 key_v4 key_v3 key_v2 key_v1)

lemma rb321: "records_below bucket321 (Format_RFC3339 (Created v3)) = [Inr v2, Inr v1]"
  by (simp add: records_below_def bucket321_def entry_def key_v5 key_v4 key_v3 key_v2 key_v1 fmt_v3 json_Unmarshal_def)

section \<open>The pivot\<close>

text \<open>
  Claim C2, as the code has it. When the items before the first cached item (the pivot) are
  not in the cache and the limit lies beyond them, the first loop stops at the pivot, and
  the pivot is the last item it has appended: it is part of the result of the live path.
  On a database whose transactions work, the second loop then reads the records of the
  bucket whose keys are below the pivot's time stamp; all of these keys are below the key
  of the pivot, so the second loop continues strictly older than the pivot and does not
  supply it.
\<close>

theorem live_phase_stops_at_pivot:
  assumes raw: "concat (pages r) = pre @ x # post"
    and fresh: "list_all2 (\<lambda>i v. mapToFeedItem L i opts = Inr v \<and> \<not> HasItem c pl v) pre vs"
    and piv: "mapToFeedItem L x opts = Inr p" "HasItem c pl p"
    and lim: "int (length pre) < limit opts"
  shows "(\<exists>n. live_phase L c r pl opts = Returned (n, (vs @ [p], None)))
       \<and> (\<forall>d b. fault d = None \<and> buckets d pl = Some b \<and> wf_bucket b \<longrightarrow>
             fallback_phase (Some d) pl opts (vs @ [p]) =
               take_seq (max 0 (limit opts - int (length (vs @ [p]))))
                 (list_seq (records_below b (Format_RFC3339 (Created p))))
                 fallback_body (0, (vs @ [p], None))
             \<and> (\<forall>e \<in> set (filter (\<lambda>e. fst e < Format_RFC3339 (Created p)) b). fst e < item_key p))"
proof -
  from raw have "List.take (Suc (length pre)) (concat (pages r)) = pre @ [x]"
    by simp
  from live_phase_pivot [OF this fresh piv lim]
  have 1: "\<exists>n. live_phase L c r pl opts = Returned (n, (vs @ [p], None))" .
  have 2: "fallback_phase (Some d) pl opts (vs @ [p]) =
               take_seq (max 0 (limit opts - int (length (vs @ [p]))))
                 (list_seq (records_below b (Format_RFC3339 (Created p))))
                 fallback_body (0, (vs @ [p], None))"
    if "fault d = None" "buckets d pl = Some b" "wf_bucket b" for d b
  proof -
    have "Iter (Some d) pl (Format_RFC3339 (Created p))
        = (list_seq (records_below b (Format_RFC3339 (Created p))) :: (error + Item, int \<times> loop_state) seq)"
      by (intro ext) (rule Iter_records_below [OF that])
    then show ?thesis
      by (simp add: fallback_phase_def)
  qed
  have 3: "\<forall>e \<in> set (filter (\<lambda>e. fst e < Format_RFC3339 (Created p)) b). fst e < item_key p" for b
    using Format_less_item_key [of p] by auto
  from 1 2 3 show ?thesis by blast
qed

theorem live_phase_stops_at_pivot_witness:
  "concat (pages five_uploads) =
      [upload ''v5'' ''2024-05-05T10:00:00Z'', upload ''v4'' ''2024-05-04T10:00:00Z'']
      @ upload ''v3'' ''2024-05-03T10:00:00Z''
      # [upload ''v2'' ''2024-05-02T10:00:00Z'', upload ''v1'' ''2024-05-01T10:00:00Z'']
   \<and> list_all2 (\<lambda>i v. mapToFeedItem demo_lib i (defaultOptions\<lparr>limit := 4\<rparr>) = Inr v
          \<and> \<not> HasItem (Some db321) ''UULFdemo'' v)
        [upload ''v5'' ''2024-05-05T10:00:00Z'', upload ''v4'' ''2024-05-04T10:00:00Z''] [v5, v4]
   \<and> mapToFeedItem demo_lib (upload ''v3'' ''2024-05-03T10:00:00Z'') (defaultOptions\<lparr>limit := 4\<rparr>) = Inr v3
   \<and> HasItem (Some db321) ''UULFdemo'' v3
   \<and> int (length [upload ''v5'' ''2024-05-05T10:00:00Z'', upload ''v4'' ''2024-05-04T10:00:00Z''])
        < limit (defaultOptions\<lparr>limit := 4\<rparr>)
   \<and> fault db321 = None \<and> buckets db321 ''UULFdemo'' = Some bucket321 \<and> wf_bucket bucket321
   \<and> (\<exists>n. live_phase demo_lib (Some db321) five_uploads ''UULFdemo'' (defaultOptions\<lparr>limit := 4\<rparr>)
          = Returned (n, ([v5, v4, v3], None)))
   \<and> fallback_phase (Some db321) ''UULFdemo'' (defaultOptions\<lparr>limit := 4\<rparr>) [v5, v4, v3]
       = take_seq 1 (list_seq [Inr v2, Inr v1]) fallback_body (0, ([v5, v4, v3], None))"
proof -
  let ?opts = "defaultOptions\<lparr>limit := 4\<rparr>"
  let ?pre = "[upload ''v5'' ''2024-05-05T10:00:00Z'', upload ''v4'' ''2024-05-04T10:00:00Z'']"
  let ?x = "upload ''v3'' ''2024-05-03T10:00:00Z''"
  let ?post = "[upload ''v2'' ''2024-05-02T10:00:00Z'', upload ''v1'' ''2024-05-01T10:00:00Z'']"
  have 1: "concat (pages five_uploads) = ?pre @ ?x # ?post"
    by (simp add: five_uploads_def)
  have 2: "list_all2 (\<lambda>i v. mapToFeedItem demo_lib i ?opts = Inr v
          \<and> \<not> HasItem (Some db321) ''UULFdemo'' v) ?pre [v5, v4]"
    by (simp add: eval_defs base_defs db321_def bucket321_def v5_def v4_def v3_def v2_def v1_def five_uploads_def)
  have 3: "mapToFeedItem demo_lib ?x ?opts = Inr v3"
    by (simp add: mapToFeedItem_def formatEnclosure_def defaultOptions_def
        base_defs db321_def bucket321_def v5_def v4_def v3_def v2_def v1_def five_uploads_def)
  have 4: "HasItem (Some db321) ''UULFdemo'' v3"
    by (simp add: eval_defs base_defs db321_def bucket321_def v5_def v4_def v3_def v2_def v1_def five_uploads_def)
  have 5: "int (length ?pre) < limit ?opts" by simp
  have 6: "fault db321 = None \<and> buckets db321 ''UULFdemo'' = Some bucket321 \<and> wf_bucket bucket321"
    by (simp add: db321_def wf321)
  from live_phase_stops_at_pivot [OF 1 2 3 4 5] 6
  have "(\<exists>n. live_phase demo_lib (Some db321) five_uploads ''UULFdemo'' ?opts
          = Returned (n, ([v5, v4] @ [v3], None)))
     \<and> fallback_phase (Some db321) ''UULFdemo'' ?opts ([v5, v4] @ [v3]) =
               take_seq (max 0 (limit ?opts - int (length ([v5, v4] @ [v3]))))
                 (list_seq (records_below bucket321 (Format_RFC3339 (Created v3))))
                 fallback_body (0, ([v5, v4] @ [v3], None))"
    by blast
  then have "(\<exists>n. live_phase demo_lib (Some db321) five_uploads ''UULFdemo'' ?opts
          = Returned (n, ([v5, v4, v3], None)))
     \<and> fallback_phase (Some db321) ''UULFdemo'' ?opts [v5, v4, v3] =
               take_seq 1 (list_seq [Inr v2, Inr v1]) fallback_body (0, ([v5, v4, v3], None))"
    by (simp add: rb321)
  with 1 2 3 4 5 6 show ?thesis by blast
qed

text \<open>
  Claim C2, as it is stated, fails: with \<open>v3\<close>, \<open>v2\<close>, \<open>v1\<close> in the cache and five uploads,
  the first loop returns \<open>v5\<close>, \<open>v4\<close> and the pivot \<open>v3\<close>; the records that the second loop
  reads are \<open>v2\<close> and \<open>v1\<close>; and with the limit 3, where the second loop does not run, the
  pivot is in the result.
\<close>

theorem pivot_added_by_live_phase_counterexample:
  "HasItem (Some db321) ''UULFdemo'' v3
   \<and> live_phase demo_lib (Some db321) five_uploads ''UULFdemo'' (defaultOptions\<lparr>limit := 4\<rparr>)
       = Returned (2, ([v5, v4, v3], None))
   \<and> records_below bucket321 (Format_RFC3339 (Created v3)) = [Inr v2, Inr v1]
   \<and> fst (videos demo_lib (Some db321) five_uploads ''UULFdemo'' (defaultOptions\<lparr>limit := 3\<rparr>))
       = Returned (Inr [v5, v4, v3])"
  by (simp add: eval_defs records_below_def base_defs db321_def bucket321_def v5_def v4_def v3_def v2_def v1_def five_uploads_def)

section \<open>New items, then the cache\<close>

text \<open>
  Claim C6, as the code has it. The bucket holds the pivot and the items \<open>older\<close> and the
  stored limit; the first items of the remote sequence are \<open>new\<close>, the pivot and \<open>older\<close>;
  the keys decrease strictly along these items, and the keys of \<open>older\<close> are below the time
  stamp of the pivot (they were published in an earlier second). Then for every limit
  beyond \<open>new\<close> and within these items \<^verbatim>\<open>videos\<close> returns exactly the first limit many of
  them. When the stored limit is not below the limit, the first loop has collected \<open>new\<close>
  and the pivot and the rest is read from the cache; when it is below, the cache is reset
  and the first loop has collected them all.
\<close>

theorem videos_pivot_correctness:
  assumes db: "fault d = None" "buckets d pl = Some b"
    and bucket: "b = rev (map entry (pivot # older)) @ [(''last-limit'', Bytes ll)]"
    and remote: "list_all2 (\<lambda>i v. mapToFeedItem L i opts = Inr v)
            (List.take (length new + Suc (length older)) (concat (pages r))) (new @ pivot # older)"
    and keys: "sorted_wrt (\<lambda>x y. x > y) (map item_key (new @ pivot # older))"
    and seconds: "\<forall>v \<in> set older. item_key v < Format_RFC3339 (Created pivot)"
    and lim: "int (length new) < limit opts" "limit opts \<le> int (length new) + 1 + int (length older)"
  shows "fst (videos L (Some d) r pl opts)
           = Returned (Inr (List.take (nat (limit opts)) (new @ pivot # older)))
         \<and> (\<exists>n. live_phase L (InvalidateCacheIfDirty (Some d) pl (limit opts)) r pl opts =
               Returned (n,
                 (if (case Atoi ll of None \<Rightarrow> True | Some lastLimit \<Rightarrow> lastLimit < limit opts)
                  then List.take (nat (limit opts)) (new @ pivot # older)
                  else new @ [pivot], None)))"
proof -
  let ?its = "new @ pivot # older"
  let ?lim = "limit opts"
  let ?raw = "concat (pages r)"
  let ?after = "Format_RFC3339 (Created pivot)"
  let ?n = "length new + Suc (length older)"
  let ?c1 = "InvalidateCacheIfDirty (Some d) pl ?lim"
  let ?cached = "rev (map entry (pivot # older))"
  let ?M = "\<lambda>i v. mapToFeedItem L i opts = Inr v"

  have len_raw: "?n \<le> length ?raw"
  proof -
    from remote have "length (List.take ?n ?raw) = length ?its" by (rule list_all2_lengthD)
    then show ?thesis by simp
  qed
  have k_le: "nat ?lim \<le> ?n" using lim by simp

  have cached_keys: "\<forall>e \<in> set ?cached. fst e < ''last-limit''"
    by (auto simp: entry_def item_key_less_last_limit)
  then have ll_notin: "''last-limit'' \<notin> fst ` set ?cached" by auto
  have stored: "Atoi_Get b ''last-limit'' = Atoi ll"
    unfolding Atoi_Get_def bucket_Get_def bucket
    by (simp only: map_of_append_last [OF ll_notin]) simp

  from keys have new_above: "\<forall>v \<in> set new. item_key pivot < item_key v"
    and new_apart: "\<forall>v \<in> set new. \<forall>c \<in> set (pivot # older). item_key c < item_key v"
    by (auto simp: sorted_wrt_append)

  show ?thesis
  proof (cases "case Atoi ll of None \<Rightarrow> True | Some lastLimit \<Rightarrow> lastLimit < ?lim")
    case True
    txt \<open>The cache is reset; all items are fetched.\<close>
    let ?b1 = "[(''last-limit'', Bytes (Itoa ?lim))]"
    let ?d1 = "d\<lparr>buckets := (buckets d)(pl \<mapsto> ?b1)\<rparr>"
    let ?vs = "List.take (nat ?lim) ?its"
    from True have c1: "?c1 = Some ?d1"
      by (intro InvalidateCacheIfDirty_reset [OF db]) (simp add: stored)
    have d1: "fault ?d1 = None" "buckets ?d1 pl = Some ?b1"
      using db by simp_all
    have no: "\<not> HasItem ?c1 pl v" for v
      by (simp add: c1 HasItem_Some [OF d1] item_key_not_last_limit)
    have "List.take (nat ?lim) ?raw = List.take (nat ?lim) (List.take ?n ?raw)"
      using k_le by (simp add: min_def)
    moreover have "list_all2 ?M (List.take (nat ?lim) (List.take ?n ?raw)) ?vs"
      using remote by (rule list_all2_takeI)
    ultimately have "list_all2 ?M (List.take (nat ?lim) ?raw) ?vs" by simp
    then have fresh: "list_all2 (\<lambda>i v. mapToFeedItem L i opts = Inr v \<and> \<not> HasItem ?c1 pl v)
        (List.take (nat ?lim) ?raw) ?vs"
      by (simp add: no)
    from k_le len_raw have "nat ?lim \<le> length ?raw" by simp
    from live_phase_all_fresh [OF fresh this]
    obtain n where live: "live_phase L ?c1 r pl opts = Returned (n, (?vs, None))" by blast
    from lim have ne: "?vs \<noteq> []" by (cases new) auto
    have "length ?vs = nat ?lim" using k_le by simp
    then have "max 0 (?lim - int (length ?vs)) \<le> 0" using lim by simp
    then have fb: "fallback_phase (Put ?c1 pl ?vs) pl opts ?vs = Returned (0, (?vs, None))"
      by (simp add: fallback_phase_def take_seq_def)
    from videos_result [OF live ne fb] live True show ?thesis by simp
  next
    case False
    txt \<open>The cache is kept; the pivot stops the first loop and the second reads the rest.\<close>
    then obtain lastLimit where l: "Atoi ll = Some lastLimit" "?lim \<le> lastLimit"
      by (auto split: option.splits)
    let ?b1 = "?cached @ [(''last-limit'', Bytes (Itoa ?lim))]"
    let ?d1 = "d\<lparr>buckets := (buckets d)(pl \<mapsto> ?b1)\<rparr>"
    let ?vs = "new @ [pivot]"
    have "bucket_Put b ''last-limit'' (Bytes (Itoa ?lim)) = ?b1"
      unfolding bucket by (rule bucket_Put_last [OF cached_keys])
    with InvalidateCacheIfDirty_kept [OF db, of lastLimit ?lim] l stored
    have c1: "?c1 = Some ?d1" by simp
    have d1: "fault ?d1 = None" "buckets ?d1 pl = Some ?b1"
      using db by simp_all
    have keys_b1: "fst ` set ?b1 = insert ''last-limit'' (item_key ` set (pivot # older))"
      by (auto simp: entry_def image_iff)
    have has: "HasItem ?c1 pl v = (item_key v \<in> item_key ` set (pivot # older))" for v
    proof -
      have "HasItem ?c1 pl v = (item_key v \<in> fst ` set ?b1)"
        unfolding c1 by (rule HasItem_Some [OF d1])
      then show ?thesis
        by (simp only: keys_b1) (simp add: item_key_not_last_limit)
    qed
    have has_pivot: "HasItem ?c1 pl pivot" by (simp add: has)
    have no_new: "\<forall>v \<in> set new. \<not> HasItem ?c1 pl v"
    proof
      fix v
      assume v: "v \<in> set new"
      show "\<not> HasItem ?c1 pl v"
      proof
        assume "HasItem ?c1 pl v"
        then obtain c where c: "c \<in> set (pivot # older)" "item_key v = item_key c"
          unfolding has by blast
        from new_apart v c(1) have "item_key c < item_key v" by blast
        with c(2) show False by simp
      qed
    qed

    obtain rawn where rawn: "List.take ?n ?raw = rawn" by simp
    with remote have "list_all2 ?M rawn (new @ pivot # older)" by simp
    then obtain pre rest where pre: "rawn = pre @ rest" "list_all2 ?M pre new"
      "list_all2 ?M rest (pivot # older)"
      by (auto simp: list_all2_append2)
    then obtain x post where x: "rest = x # post" "?M x pivot"
      by (auto simp: list_all2_Cons2)
    from pre have lenpre: "length pre = length new" by (simp add: list_all2_lengthD)
    have "List.take (Suc (length pre)) ?raw = List.take (Suc (length pre)) (List.take ?n ?raw)"
      by (simp add: lenpre min_def)
    also have "\<dots> = pre @ [x]"
      by (simp only: rawn pre(1) x(1)) simp
    finally have raw: "List.take (Suc (length pre)) ?raw = pre @ [x]" .
    from pre(2) no_new have fresh:
      "list_all2 (\<lambda>i v. mapToFeedItem L i opts = Inr v \<and> \<not> HasItem ?c1 pl v) pre new"
      by (auto simp: list_all2_conv_all_nth)
    from lim lenpre have "int (length pre) < ?lim" by simp
    from live_phase_pivot [OF raw fresh x(2) has_pivot this]
    obtain n where live: "live_phase L ?c1 r pl opts = Returned (n, (?vs, None))" by blast

    let ?b2 = "foldl (\<lambda>b item. bucket_Put b (item_key item) (Json item)) ?b1 ?vs"
    let ?d2 = "?d1\<lparr>buckets := (buckets ?d1)(pl \<mapsto> ?b2)\<rparr>"
    have c2: "Put ?c1 pl ?vs = Some ?d2"
      by (simp only: c1 Put_Some [OF d1])
    have d2: "fault ?d2 = None" "buckets ?d2 pl = Some ?b2"
      using db by simp_all
    have above: "\<forall>v \<in> set ?vs. ?after \<le> item_key v"
    proof
      fix v
      assume "v \<in> set ?vs"
      then consider "v = pivot" | "v \<in> set new" by auto
      then show "?after \<le> item_key v"
      proof cases
        case 1
        then show ?thesis using Format_less_item_key [of pivot] by simp
      next
        case 2
        with new_above have "item_key pivot < item_key v" by blast
        with Format_less_item_key [of pivot] show ?thesis by simp
      qed
    qed
    have "takeWhile (\<lambda>e. fst e < ?after) ?b2 = takeWhile (\<lambda>e. fst e < ?after) ?b1"
      by (rule takeWhile_foldl_Put [OF above])
    also have "?b1 = rev (map entry older) @ (entry pivot # [(''last-limit'', Bytes (Itoa ?lim))])"
      by simp
    also have "takeWhile (\<lambda>e. fst e < ?after) \<dots> = rev (map entry older)"
    proof -
      have below: "fst e < ?after" if "e \<in> set (rev (map entry older))" for e
        using seconds that by (auto simp: entry_def)
      have "takeWhile (\<lambda>e. fst e < ?after)
              (rev (map entry older) @ (entry pivot # [(''last-limit'', Bytes (Itoa ?lim))]))
            = rev (map entry older)
              @ takeWhile (\<lambda>e. fst e < ?after) (entry pivot # [(''last-limit'', Bytes (Itoa ?lim))])"
        by (rule takeWhile_append2) (rule below)
      moreover have "\<not> fst (entry pivot) < ?after"
        using Format_less_item_key [of pivot] by (simp add: entry_def less_not_sym)
      ultimately show ?thesis
        by simp
    qed
    finally have tw: "rev (takeWhile (\<lambda>e. fst e < Format_RFC3339 (Created (last ?vs))) ?b2)
        = map entry older"
      by simp
    from fallback_phase_list [OF d2 tw, of opts]
    obtain n' where fb: "fallback_phase (Put ?c1 pl ?vs) pl opts ?vs =
        Returned (n', (?vs @ List.take (nat (?lim - int (length ?vs))) older, None))"
      unfolding c2 by blast
    have ne: "?vs \<noteq> []" by simp
    have "?vs @ List.take (nat (?lim - int (length ?vs))) older = List.take (nat ?lim) ?its"
    proof -
      from lim have "nat ?lim - length new = Suc (nat (?lim - int (length ?vs)))"
        by simp
      moreover from lim have "length new \<le> nat ?lim" by simp
      ultimately show ?thesis by simp
    qed
    with videos_result [OF live ne fb] live False show ?thesis by simp
  qed
qed

theorem videos_pivot_correctness_witness:
  "fault db321 = None \<and> buckets db321 ''UULFdemo'' = Some bucket321
   \<and> bucket321 = rev (map entry (v3 # [v2, v1])) @ [(''last-limit'', Bytes ''5'')]
   \<and> list_all2 (\<lambda>i v. mapToFeedItem demo_lib i (defaultOptions\<lparr>limit := 4\<rparr>) = Inr v)
        (List.take (length [v5, v4] + Suc (length [v2, v1])) (concat (pages five_uploads)))
        ([v5, v4] @ v3 # [v2, v1])
   \<and> sorted_wrt (\<lambda>x y. x > y) (map item_key ([v5, v4] @ v3 # [v2, v1]))
   \<and> item_key v2 < Format_RFC3339 (Created v3) \<and> item_key v1 < Format_RFC3339 (Created v3)
   \<and> int (length [v5, v4]) < limit (defaultOptions\<lparr>limit := 4\<rparr>)
   \<and> limit (defaultOptions\<lparr>limit := 4\<rparr>) \<le> int (length [v5, v4]) + 1 + int (length [v2, v1])
   \<and> fst (videos demo_lib (Some db321) five_uploads ''UULFdemo'' (defaultOptions\<lparr>limit := 4\<rparr>))
       = Returned (Inr [v5, v4, v3, v2])"
proof -
  have 1: "fault db321 = None" and 2: "buckets db321 ''UULFdemo'' = Some bucket321"
    by (simp_all add: db321_def)
  have 3: "bucket321 = rev (map entry (v3 # [v2, v1])) @ [(''last-limit'', Bytes ''5'')]"
    by (simp add: bucket321_def)
  have 4: "list_all2 (\<lambda>i v. mapToFeedItem demo_lib i (defaultOptions\<lparr>limit := 4\<rparr>) = Inr v)
        (List.take (length [v5, v4] + Suc (length [v2, v1])) (concat (pages five_uploads)))
        ([v5, v4] @ v3 # [v2, v1])"
    by (simp add: mapToFeedItem_def formatEnclosure_def defaultOptions_def
        base_defs db321_def bucket321_def v5_def v4_def v3_def v2_def v1_def five_uploads_def)
  have 5: "sorted_wrt (\<lambda>x y. x > y) (map item_key ([v5, v4] @ v3 # [v2, v1]))"
    by (simp add: key_v5 key_v4 key_v3 key_v2 key_v1)
  have 6: "\<forall>v \<in> set [v2, v1]. item_key v < Format_RFC3339 (Created v3)"
    by (simp add: key_v5 key_v4 key_v3 key_v2 key_v1 fmt_v3)
  have 7: "int (length [v5, v4]) < limit (defaultOptions\<lparr>limit := 4\<rparr>)"
    and 8: "limit (defaultOptions\<lparr>limit := 4\<rparr>) \<le> int (length [v5, v4]) + 1 + int (length [v2, v1])"
    by simp_all
  from videos_pivot_correctness [OF 1 2 3 4 5 6 7 8]
  have "fst (videos demo_lib (Some db321) five_uploads ''UULFdemo'' (defaultOptions\<lparr>limit := 4\<rparr>))
       = Returned (Inr [v5, v4, v3, v2])"
    by simp
  moreover from 6 have "item_key v2 < Format_RFC3339 (Created v3)"
    and "item_key v1 < Format_RFC3339 (Created v3)"
    by simp_all
  ultimately show ?thesis using 1 2 3 4 5 7 8 by blast
qed

text \<open>
  Claim C6, as it is stated, fails: the videos \<open>b\<close> and \<open>a\<close> of one second are both in the
  cache with the stored limit 3 and \<open>v4\<close> is new; with the limit 3 the result is \<open>v4\<close> and
  \<open>b\<close> only, since the key of \<open>a\<close> is not below the time stamp of \<open>b\<close>. And in the example
  of five uploads with the limit 4 the pivot \<open>v3\<close> is collected by the first loop, not read
  from the cache, when the stored limit is 5, and all four items are collected by the first
  loop when the stored limit is 3.
\<close>

theorem videos_same_second_gap_counterexample:
  "HasItem (Some db_ab) ''UULFdemo'' vb \<and> HasItem (Some db_ab) ''UULFdemo'' va
   \<and> \<not> HasItem (Some db_ab) ''UULFdemo'' v4
   \<and> fst (videos demo_lib (Some db_ab) same_second_uploads ''UULFdemo'' (defaultOptions\<lparr>limit := 3\<rparr>))
       = Returned (Inr [v4, vb])
   \<and> live_phase demo_lib (InvalidateCacheIfDirty (Some db321) ''UULFdemo'' 4) five_uploads ''UULFdemo''
        (defaultOptions\<lparr>limit := 4\<rparr>) = Returned (2, ([v5, v4, v3], None))
   \<and> live_phase demo_lib (InvalidateCacheIfDirty (Some db321_limit3) ''UULFdemo'' 4) five_uploads
        ''UULFdemo'' (defaultOptions\<lparr>limit := 4\<rparr>) = Returned (4, ([v5, v4, v3, v2], None))"
  by (simp add: eval_defs base_defs db_ab_def bucket_ab_def va_def vb_def same_second_uploads_def
      db321_def db321_limit3_def bucket321_def v5_def v4_def v3_def v2_def v1_def five_uploads_def)

section \<open>Fixed-width decimals\<close>

lemma digit_char_less_iff: "a < 10 \<Longrightarrow> b < 10 \<Longrightarrow> digit_char a < digit_char b \<longleftrightarrow> a < b"
proof -
  assume "a < 10" "b < 10"
  then have "a \<in> {0,1,2,3,4,5,6,7,8,9}" "b \<in> {0,1,2,3,4,5,6,7,8,9}" by auto
  then show ?thesis
    by (auto simp: digit_char_def)
qed

lemma digit_char_eq_iff: "a < 10 \<Longrightarrow> b < 10 \<Longrightarrow> digit_char a = digit_char b \<longleftrightarrow> a = b"
  using digit_char_less_iff [of a b] digit_char_less_iff [of b a]
  by (metis less_irrefl linorder_neqE_nat)

lemma length_digits_of: "n < 10 ^ w \<Longrightarrow> 0 < w \<Longrightarrow> length (digits_of n) \<le> w"
proof (induction n arbitrary: w rule: digits_of.induct)
  case (1 n)
  show ?case
  proof (cases "n < 10")
    case True
    with 1(3) show ?thesis by (subst digits_of.simps) simp
  next
    case False
    from 1(3) obtain w' where w: "w = Suc w'" by (cases w) auto
    from False 1(2) have "0 < w'" unfolding w by (cases w') auto
    moreover from 1(2) have "n div 10 < 10 ^ w'" unfolding w
      by (simp add: less_mult_imp_div_less mult.commute)
    ultimately have "length (digits_of (n div 10)) \<le> w'"
      using 1(1) [OF False] by blast
    with False show ?thesis by (subst digits_of.simps) (simp add: w)
  qed
qed

lemma pad_Suc:
  assumes "0 < w" "n < 10 ^ Suc w"
  shows "pad (Suc w) n = pad w (n div 10) @ [digit_char (n mod 10)]"
proof (cases "n < 10")
  case True
  then have "digits_of n = [digit_char n]" "digits_of (n div 10) = [digit_char 0]"
    by (subst digits_of.simps, simp)+
  with True assms(1) show ?thesis
    by (simp add: pad_def digit_char_def replicate_append_same [symmetric] Suc_diff_le
        del: replicate_Suc)
       (metis One_nat_def Suc_pred replicate_Suc replicate_append_same)
next
  case False
  then have d: "digits_of n = digits_of (n div 10) @ [digit_char (n mod 10)]"
    by (subst digits_of.simps) simp
  from assms have "n div 10 < 10 ^ w"
    by (simp add: less_mult_imp_div_less mult.commute)
  then have "length (digits_of (n div 10)) \<le> w"
    using assms(1) by (rule length_digits_of)
  then show ?thesis
    by (simp add: pad_def d Suc_diff_le)
qed

lemma pad_1: "n < 10 \<Longrightarrow> pad (Suc 0) n = [digit_char n]"
  by (subst pad_def, subst (1 2) digits_of.simps) simp

lemma length_pad: "0 < w \<Longrightarrow> n < 10 ^ w \<Longrightarrow> length (pad w n) = w"
  using length_digits_of [of n w] by (simp add: pad_def)

lemma less_snoc_same_length:
  "length xs = length ys \<Longrightarrow>
   (xs @ r :: string) < ys @ s \<longleftrightarrow> xs < ys \<or> xs = ys \<and> r < s"
proof (induction xs ys rule: list_induct2)
  case Nil
  then show ?case by simp
next
  case (Cons x xs y ys)
  then show ?case by auto
qed

lemma pad_order:
  "0 < w \<Longrightarrow> n < 10 ^ w \<Longrightarrow> m < 10 ^ w \<Longrightarrow>
   (pad w n < pad w m \<longleftrightarrow> n < m) \<and> (pad w n = pad w m \<longleftrightarrow> n = m)"
proof (induction w arbitrary: n m)
  case 0
  then show ?case by simp
next
  case (Suc w)
  show ?case
  proof (cases "w = 0")
    case True
    with Suc.prems show ?thesis
      by (simp add: pad_1 digit_char_less_iff digit_char_eq_iff)
  next
    case False
    then have w: "0 < w" by simp
    from Suc.prems have dn: "n div 10 < 10 ^ w" and dm: "m div 10 < 10 ^ w"
      by (simp_all add: less_mult_imp_div_less mult.commute)
    note IH = Suc.IH [OF w dn dm]
    have len: "length (pad w (n div 10)) = length (pad w (m div 10))"
      by (simp add: length_pad [OF w dn] length_pad [OF w dm])
    have pn: "pad (Suc w) n = pad w (n div 10) @ [digit_char (n mod 10)]"
      and pm: "pad (Suc w) m = pad w (m div 10) @ [digit_char (m mod 10)]"
      using Suc.prems w by (simp_all add: pad_Suc)
    have lt: "pad (Suc w) n < pad (Suc w) m \<longleftrightarrow>
        n div 10 < m div 10 \<or> n div 10 = m div 10 \<and> n mod 10 < m mod 10"
      unfolding pn pm less_snoc_same_length [OF len]
      using IH by (simp add: digit_char_less_iff)
    have eq: "pad (Suc w) n = pad (Suc w) m \<longleftrightarrow> n div 10 = m div 10 \<and> n mod 10 = m mod 10"
      unfolding pn pm using IH by (simp add: digit_char_eq_iff)
    define qn rn qm rm where "qn = n div 10" and "rn = n mod 10" and "qm = m div 10" and "rm = m mod 10"
    have n: "n = 10 * qn + rn" "rn < 10" and m: "m = 10 * qm + rm" "rm < 10"
      by (simp_all add: qn_def rn_def qm_def rm_def)
    from n m have "n < m \<longleftrightarrow> qn < qm \<or> qn = qm \<and> rn < rm"
      by arith
    moreover from n m have "n = m \<longleftrightarrow> qn = qm \<and> rn = rm"
      by arith
    ultimately show ?thesis using lt eq unfolding qn_def rn_def qm_def rm_def by blast
  qed
qed

lemma div_succ:
  fixes z k :: int
  assumes "0 < k"
  shows "(z + 1) div k = (if (z + 1) mod k = 0 then z div k + 1 else z div k)"
proof -
  define q r where "q = z div k" and "r = z mod k"
  have z: "z = k * q + r" and r: "0 \<le> r" "r < k"
    using assms by (simp_all add: q_def r_def)
  show ?thesis
  proof (cases "r + 1 = k")
    case True
    then have e: "z + 1 = k * (q + 1) + 0" using z by (simp add: algebra_simps)
    have "(z + 1) div k = q + 1"
      by (rule int_div_pos_eq [where r = 0]) (use e assms in simp_all)
    moreover have "(z + 1) mod k = 0"
      by (rule int_mod_pos_eq [where q = "q + 1"]) (use e assms in simp_all)
    ultimately show ?thesis by (simp add: q_def)
  next
    case False
    with r have r1: "0 \<le> r + 1" "r + 1 < k" by simp_all
    have e: "z + 1 = k * q + (r + 1)" using z by simp
    have "(z + 1) div k = q"
      by (rule int_div_pos_eq [where r = "r + 1"]) (use e r1 in simp_all)
    moreover have "(z + 1) mod k = r + 1"
      by (rule int_mod_pos_eq [where q = q]) (use e r1 in simp_all)
    ultimately show ?thesis using r by (simp add: q_def)
  qed
qed

section \<open>The calendar\<close>

lemma mod_100_4: "(y :: int) mod 100 = 0 \<Longrightarrow> y mod 4 = 0"
proof -
  assume a: "y mod 100 = 0"
  have "y mod 4 = y mod 100 mod 4" by (simp add: mod_mod_cancel)
  with a show ?thesis by simp
qed

lemma mod_400_100: "(y :: int) mod 400 = 0 \<Longrightarrow> y mod 100 = 0"
proof -
  assume a: "y mod 400 = 0"
  have "y mod 100 = y mod 400 mod 100" by (simp add: mod_mod_cancel)
  with a show ?thesis by simp
qed

lemma days_before_year_Suc:
  "days_before_year (y + 1) = days_before_year y + 365 + (if leap_year y then 1 else 0)"
proof -
  define z where "z = y - 1"
  have y: "y = z + 1" by (simp add: z_def)
  have d: "days_before_year (y + 1) - days_before_year y =
      365 + ((z + 1) div 4 - z div 4) - ((z + 1) div 100 - z div 100) + ((z + 1) div 400 - z div 400)"
    by (simp add: days_before_year_def y add.commute)
  have d4: "(z + 1) div 4 - z div 4 = (if y mod 4 = 0 then 1 else 0)"
    and d100: "(z + 1) div 100 - z div 100 = (if y mod 100 = 0 then 1 else 0)"
    and d400: "(z + 1) div 400 - z div 400 = (if y mod 400 = 0 then 1 else 0)"
    by (simp_all add: div_succ y)
  have "days_before_year (y + 1) - days_before_year y = 365 + (if leap_year y then 1 else 0)"
    unfolding d d4 d100 d400 leap_year_def
    using mod_100_4 [of y] mod_400_100 [of y]
    by (cases "y mod 4 = 0"; cases "y mod 100 = 0"; cases "y mod 400 = 0") simp_all
  then show ?thesis by simp
qed

lemma days_before_year_mono: "y \<le> y' \<Longrightarrow> days_before_year y \<le> days_before_year y'"
proof (induction y' rule: int_ge_induct)
  case base
  then show ?case by simp
next
  case (step i)
  then show ?case by (simp add: days_before_year_Suc)
qed

lemma days_before_month_Suc:
  "1 \<le> m \<Longrightarrow> days_before_month y (Suc m) = days_before_month y m + days_in_month y m"
  by (simp add: days_before_month_def)

lemma days_before_month_mono: "m \<le> m' \<Longrightarrow> days_before_month y m \<le> days_before_month y m'"
proof (induction m' rule: dec_induct)
  case base
  then show ?case by simp
next
  case (step n)
  show ?case
  proof (cases "1 \<le> n")
    case True
    with step show ?thesis by (simp add: days_before_month_Suc)
  next
    case False
    then have "n = 0" by simp
    with step have "m = 0" by simp
    with \<open>n = 0\<close> show ?thesis by (simp add: days_before_month_def)
  qed
qed

lemma months_of_year: "[Suc 0 ..< 13] = [1, 2, 3, 4, 5, 6, 7, 8, 9, 10, 11, 12 :: nat]"
  by code_simp

lemma days_before_month_13:
  "days_before_month y 13 = 365 + (if leap_year y then 1 else 0)"
  by (simp add: days_before_month_def months_of_year days_in_month_def)

lemma day_of_year_bound:
  assumes "1 \<le> m" "m \<le> 12" "d \<le> days_in_month y m"
  shows "days_before_month y m + d \<le> 365 + (if leap_year y then 1 else 0)"
proof -
  have "days_before_month y m + d \<le> days_before_month y (Suc m)"
    using assms by (simp add: days_before_month_Suc)
  also have "\<dots> \<le> days_before_month y 13"
    using assms by (intro days_before_month_mono) simp
  finally show ?thesis by (simp only: days_before_month_13)
qed

lemma civil_trichotomy: "civil_less a b \<or> civil_eq a b \<or> civil_less b a"
  unfolding civil_less_def civil_eq_def by (metis linorder_neqE_nat linorder_neqE_linordered_idom)

lemma days_less_year:
  assumes "valid_time a" "valid_time b" "Year a < Year b"
  shows "days_since_epoch a < days_since_epoch b"
proof -
  from assms(1) have "days_before_month (Year a) (Month a) + Day a
      \<le> 365 + (if leap_year (Year a) then 1 else 0)"
    by (intro day_of_year_bound) (simp_all add: valid_time_def)
  then have "int (days_before_month (Year a) (Month a)) + int (Day a)
      \<le> 365 + (if leap_year (Year a) then 1 else 0)"
    by (simp split: if_splits)
  then have "days_since_epoch a < days_before_year (Year a + 1)"
    by (simp add: days_since_epoch_def days_before_year_Suc)
  also from assms(3) have "\<dots> \<le> days_before_year (Year b)"
    by (intro days_before_year_mono) simp
  also from assms(2) have "\<dots> \<le> days_since_epoch b"
    by (simp add: days_since_epoch_def valid_time_def)
  finally show ?thesis .
qed

lemma days_less_month:
  assumes "valid_time a" "valid_time b" "Year a = Year b" "Month a < Month b"
  shows "days_since_epoch a < days_since_epoch b"
proof -
  from assms(1) have "days_before_month (Year a) (Month a) + Day a
      \<le> days_before_month (Year a) (Suc (Month a))"
    by (simp add: days_before_month_Suc valid_time_def)
  also from assms(4) have "\<dots> \<le> days_before_month (Year a) (Month b)"
    by (intro days_before_month_mono) simp
  finally have "days_before_month (Year a) (Month a) + Day a < days_before_month (Year a) (Month b) + Day b"
    using assms(2) by (simp add: valid_time_def)
  then show ?thesis
    using assms(3) by (simp add: days_since_epoch_def)
qed

lemma clock_bound:
  "valid_time t \<Longrightarrow> int (Hour t) * 3600 + int (Minute t) * 60 + int (Second t) < 86400"
  by (simp add: valid_time_def)

lemma instant_less:
  assumes "valid_time a" "valid_time b" "Offset a = Offset b" "civil_less a b"
  shows "instant_seconds a < instant_seconds b"
proof -
  let ?clock = "\<lambda>t. int (Hour t) * 3600 + int (Minute t) * 60 + int (Second t)"
  have ca: "?clock a < 86400" "0 \<le> ?clock a" and cb: "?clock b < 86400" "0 \<le> ?clock b"
    using assms(1,2) by (simp_all add: clock_bound)
  consider (date) "days_since_epoch a < days_since_epoch b"
    | (clock) "days_since_epoch a = days_since_epoch b" "?clock a < ?clock b"
  proof -
    from assms(4) consider "Year a < Year b" | "Year a = Year b" "Month a < Month b"
      | "Year a = Year b" "Month a = Month b" "Day a < Day b"
      | "Year a = Year b" "Month a = Month b" "Day a = Day b"
        "Hour a < Hour b \<or> Hour a = Hour b \<and>
             (Minute a < Minute b \<or> Minute a = Minute b \<and> Second a < Second b)"
      unfolding civil_less_def by blast
    then show ?thesis
    proof cases
      case 1
      then show ?thesis using days_less_year [OF assms(1,2)] that(1) by blast
    next
      case 2
      then show ?thesis using days_less_month [OF assms(1,2)] that(1) by blast
    next
      case 3
      then have "days_since_epoch a < days_since_epoch b"
        by (simp add: days_since_epoch_def)
      then show ?thesis using that(1) by blast
    next
      case 4
      then have d: "days_since_epoch a = days_since_epoch b"
        by (simp add: days_since_epoch_def)
      from assms(1,2) have "Minute a < 60" "Second a < 60" "Minute b < 60" "Second b < 60"
        by (simp_all add: valid_time_def)
      with 4(4) have "?clock a < ?clock b" by auto
      with d show ?thesis using that(2) by blast
    qed
  qed
  then show ?thesis
  proof cases
    case date
    then have "days_since_epoch a + 1 \<le> days_since_epoch b" by simp
    then have "(days_since_epoch a + 1) * 86400 \<le> days_since_epoch b * 86400" by simp
    with ca cb assms(3) show ?thesis
      by (simp add: instant_seconds_def algebra_simps)
  next
    case clock
    with assms(3) show ?thesis by (simp add: instant_seconds_def)
  qed
qed

lemma instant_eq: "civil_eq a b \<Longrightarrow> Offset a = Offset b \<Longrightarrow> instant_seconds a = instant_seconds b"
  by (simp add: civil_eq_def instant_seconds_def days_since_epoch_def)

lemma instant_less_iff:
  assumes "valid_time a" "valid_time b" "Offset a = Offset b"
  shows "instant_seconds a < instant_seconds b \<longleftrightarrow> civil_less a b"
    and "instant_seconds a = instant_seconds b \<longleftrightarrow> civil_eq a b"
proof -
  have ab: "civil_less a b \<Longrightarrow> instant_seconds a < instant_seconds b"
    using instant_less [OF assms] .
  have ba: "civil_less b a \<Longrightarrow> instant_seconds b < instant_seconds a"
    using instant_less [OF assms(2,1)] assms(3) by simp
  have eq: "civil_eq a b \<Longrightarrow> instant_seconds a = instant_seconds b"
    using instant_eq assms(3) by blast
  show "instant_seconds a < instant_seconds b \<longleftrightarrow> civil_less a b"
    using ab ba eq civil_trichotomy [of a b] by fastforce
  show "instant_seconds a = instant_seconds b \<longleftrightarrow> civil_eq a b"
    using ab ba eq civil_trichotomy [of a b] by fastforce
qed

section \<open>The order of the keys\<close>

lemma Format_civil_string: "Format_RFC3339 t = civil_string t @ format_zone (Offset t)"
  by (simp add: Format_RFC3339_def civil_string_def)

lemma field_less:
  "length f = length g \<Longrightarrow> (f @ c # r :: string) < g @ c # s \<longleftrightarrow> f < g \<or> f = g \<and> r < s"
  by (simp add: less_snoc_same_length)

lemma field_eq:
  "length f = length g \<Longrightarrow> (f @ c # r :: string) = g @ c # s \<longleftrightarrow> f = g \<and> r = s"
  by simp

lemma civil_string_fields:
  assumes "valid_time t" "0 \<le> Year t" "Year t \<le> 9999"
  shows "civil_string t =
     pad 4 (nat (Year t)) @ CHR ''-'' # pad 2 (Month t) @ CHR ''-'' # pad 2 (Day t)
     @ CHR ''T'' # pad 2 (Hour t) @ CHR '':'' # pad 2 (Minute t) @ CHR '':'' # pad 2 (Second t)"
    and "nat (Year t) < 10 ^ 4" and "Month t < 10 ^ 2" and "Day t < 10 ^ 2"
    and "Hour t < 10 ^ 2" and "Minute t < 10 ^ 2" and "Second t < 10 ^ 2"
proof -
  show "civil_string t =
     pad 4 (nat (Year t)) @ CHR ''-'' # pad 2 (Month t) @ CHR ''-'' # pad 2 (Day t)
     @ CHR ''T'' # pad 2 (Hour t) @ CHR '':'' # pad 2 (Minute t) @ CHR '':'' # pad 2 (Second t)"
    using assms(2) by (simp add: civil_string_def appendInt_def)
  from assms(2,3) show "nat (Year t) < 10 ^ 4" by simp
  from assms(1) show "Month t < 10 ^ 2" "Hour t < 10 ^ 2" "Minute t < 10 ^ 2" "Second t < 10 ^ 2"
    by (simp_all add: valid_time_def)
  from assms(1) have "Day t \<le> 31"
    by (auto simp: valid_time_def days_in_month_def split: if_splits)
  then show "Day t < 10 ^ 2" by simp
qed

lemma civil_string_order:
  assumes a: "valid_time a" "0 \<le> Year a" "Year a \<le> 9999"
    and b: "valid_time b" "0 \<le> Year b" "Year b \<le> 9999"
  shows "civil_string a < civil_string b \<longleftrightarrow> civil_less a b"
    and "civil_string a = civil_string b \<longleftrightarrow> civil_eq a b"
    and "length (civil_string a) = length (civil_string b)"
proof -
  note fa = civil_string_fields [OF a]
  note fb = civil_string_fields [OF b]
  have w4: "(0 :: nat) < 4" and w2: "(0 :: nat) < 2" by simp_all
  note y = pad_order [OF w4 fa(2) fb(2)]
  note mo = pad_order [OF w2 fa(3) fb(3)]
  note d = pad_order [OF w2 fa(4) fb(4)]
  note h = pad_order [OF w2 fa(5) fb(5)]
  note mi = pad_order [OF w2 fa(6) fb(6)]
  note s = pad_order [OF w2 fa(7) fb(7)]
  have ly: "length (pad 4 (nat (Year a))) = length (pad 4 (nat (Year b)))"
    by (simp add: length_pad [OF w4 fa(2)] length_pad [OF w4 fb(2)])
  have lmo: "length (pad 2 (Month a)) = length (pad 2 (Month b))"
    by (simp add: length_pad [OF w2 fa(3)] length_pad [OF w2 fb(3)])
  have ld: "length (pad 2 (Day a)) = length (pad 2 (Day b))"
    by (simp add: length_pad [OF w2 fa(4)] length_pad [OF w2 fb(4)])
  have lh: "length (pad 2 (Hour a)) = length (pad 2 (Hour b))"
    by (simp add: length_pad [OF w2 fa(5)] length_pad [OF w2 fb(5)])
  have lmi: "length (pad 2 (Minute a)) = length (pad 2 (Minute b))"
    by (simp add: length_pad [OF w2 fa(6)] length_pad [OF w2 fb(6)])
  have ls: "length (pad 2 (Second a)) = length (pad 2 (Second b))"
    by (simp add: length_pad [OF w2 fa(7)] length_pad [OF w2 fb(7)])
  from a(2) b(2) have yy: "nat (Year a) < nat (Year b) \<longleftrightarrow> Year a < Year b"
    "nat (Year a) = nat (Year b) \<longleftrightarrow> Year a = Year b"
    by auto
  show "civil_string a < civil_string b \<longleftrightarrow> civil_less a b"
    unfolding fa(1) fb(1) civil_less_def
      field_less [OF ly] field_less [OF lmo] field_less [OF ld] field_less [OF lh] field_less [OF lmi]
      field_eq [OF ly] field_eq [OF lmo] field_eq [OF ld] field_eq [OF lh] field_eq [OF lmi]
    using y mo d h mi s yy by simp
  show "civil_string a = civil_string b \<longleftrightarrow> civil_eq a b"
    unfolding fa(1) fb(1) civil_eq_def
      field_eq [OF ly] field_eq [OF lmo] field_eq [OF ld] field_eq [OF lh] field_eq [OF lmi]
    using y mo d h mi s yy by simp
  show "length (civil_string a) = length (civil_string b)"
    unfolding fa(1) fb(1) using ly lmo ld lh lmi ls by simp
qed

lemma less_same_prefix: "(z @ r :: string) < z @ s \<longleftrightarrow> r < s"
  by (simp add: less_snoc_same_length)

text \<open>
  Claim C9, as the code has it. For two items whose times are valid civil times of one zone
  with years from 0 to 9999, the keys are in the bytewise order of the pairs of the second
  of the instant and the id: the item of the earlier second, which is the earlier item, has
  the smaller key, and two items of one second are in the order of their ids.
\<close>

theorem item_key_order:
  assumes "valid_time (Created a)" "0 \<le> Year (Created a)" "Year (Created a) \<le> 9999"
    and "valid_time (Created b)" "0 \<le> Year (Created b)" "Year (Created b) \<le> 9999"
    and "Offset (Created a) = Offset (Created b)"
  shows "(item_key a < item_key b \<longleftrightarrow>
            instant_seconds (Created a) < instant_seconds (Created b)
            \<or> instant_seconds (Created a) = instant_seconds (Created b) \<and> Id a < Id b)
       \<and> (instant_seconds (Created a) < instant_seconds (Created b) \<longrightarrow>
            earlier (Created a) (Created b) \<and> item_key a < item_key b)"
proof -
  let ?A = "Created a" and ?B = "Created b"
  note cs = civil_string_order [OF assms(1-6)]
  note inst = instant_less_iff [OF assms(1) assms(4) assms(7)]
  have ka: "item_key a = civil_string ?A @ (format_zone (Offset ?B) @ CHR ''-'' # Id a)"
    and kb: "item_key b = civil_string ?B @ (format_zone (Offset ?B) @ CHR ''-'' # Id b)"
    by (simp_all add: item_key_def Format_civil_string assms(7))
  have "item_key a < item_key b \<longleftrightarrow>
      civil_string ?A < civil_string ?B \<or> civil_string ?A = civil_string ?B \<and> Id a < Id b"
    unfolding ka kb less_snoc_same_length [OF cs(3)] less_same_prefix by simp
  then have key: "item_key a < item_key b \<longleftrightarrow>
      instant_seconds ?A < instant_seconds ?B \<or> instant_seconds ?A = instant_seconds ?B \<and> Id a < Id b"
    by (simp only: cs(1,2) inst)
  then show ?thesis
    by (auto simp: earlier_def)
qed

lemmas format_defs = item_key_def Format_RFC3339_def appendInt_def pad_def digits_of.simps
  digit_char_def format_zone_def

theorem item_key_order_witness:
  "valid_time (Created v4) \<and> 0 \<le> Year (Created v4) \<and> Year (Created v4) \<le> 9999
   \<and> valid_time (Created v5) \<and> 0 \<le> Year (Created v5) \<and> Year (Created v5) \<le> 9999
   \<and> Offset (Created v4) = Offset (Created v5)
   \<and> item_key v4 < item_key v5
   \<and> (instant_seconds (Created v4) < instant_seconds (Created v5)
      \<or> instant_seconds (Created v4) = instant_seconds (Created v5) \<and> Id v4 < Id v5)"
proof -
  have 1: "valid_time (Created v4)" and 4: "valid_time (Created v5)"
    by (simp_all add: valid_time_def days_in_month_def utc_def video_def v5_def v4_def)
  have 2: "0 \<le> Year (Created v4)" and 3: "Year (Created v4) \<le> 9999"
    and 5: "0 \<le> Year (Created v5)" and 6: "Year (Created v5) \<le> 9999"
    and 7: "Offset (Created v4) = Offset (Created v5)"
    by (simp_all add: utc_def video_def v5_def v4_def)
  have k: "item_key v4 < item_key v5"
    by (simp add: format_defs utc_def video_def v5_def v4_def)
  from item_key_order [OF 1 2 3 4 5 6 7] k
  have "instant_seconds (Created v4) < instant_seconds (Created v5)
      \<or> instant_seconds (Created v4) = instant_seconds (Created v5) \<and> Id v4 < Id v5"
    by blast
  with 1 2 3 4 5 6 7 k show ?thesis by blast
qed

text \<open>
  Claim C9, as it is stated, fails: of two items of one second the one with the later
  fraction has the smaller key when its id is smaller; an item written in a zone east of
  UTC has a greater key than an item that is an hour later and written in UTC; and two
  items of the same instant have different keys.
\<close>

theorem item_key_order_counterexample:
  "earlier (Created early_b) (Created late_a) \<and> item_key late_a < item_key early_b
   \<and> earlier (Created noon_east) (Created eleven_utc) \<and> item_key eleven_utc < item_key noon_east
   \<and> \<not> earlier (Created va) (Created vb) \<and> \<not> earlier (Created vb) (Created va)
   \<and> item_key va < item_key vb"
proof -
  have 1: "earlier (Created early_b) (Created late_a)"
    by (simp add: earlier_def instant_seconds_def days_since_epoch_def utc_def video_def
        late_a_def early_b_def)
  have 2: "item_key late_a < item_key early_b"
    by (simp add: format_defs utc_def video_def late_a_def early_b_def)
  have 3: "earlier (Created noon_east) (Created eleven_utc)"
    by (simp add: earlier_def instant_seconds_def days_since_epoch_def utc_def video_def
        noon_east_def eleven_utc_def)
  have 4: "item_key eleven_utc < item_key noon_east"
    by (simp add: format_defs utc_def video_def noon_east_def eleven_utc_def)
  have 5: "\<not> earlier (Created va) (Created vb)" and 6: "\<not> earlier (Created vb) (Created va)"
    by (simp_all add: earlier_def instant_seconds_def days_since_epoch_def utc_def video_def
        va_def vb_def)
  have 7: "item_key va < item_key vb"
    by (simp add: format_defs utc_def video_def va_def vb_def)
  from 1 2 3 4 5 6 7 show ?thesis by simp
qed

end
